theory Spec2Isabelle
  imports Main "HOL-Library.Sublist" "HOL-Library.List_Lexorder"
begin

section \<open>JavaScript strings\<close>

text \<open>
  A JavaScript string is a sequence of UTF-16 code units.  The sources contain code units
  above 255 (Vietnamese text, and the legacy placeholder name of the image pattern), so a
  string is modelled as a list of code-unit values, not as a list of 8-bit characters.
  \<open>asc\<close> embeds an ASCII literal.
\<close>

type_synonym jsstring = "nat list"

definition asc :: "string \<Rightarrow> jsstring" where
  "asc s = map of_char s"

text \<open>ECMAScript \<open>LineTerminator\<close>: LF, CR, LS, PS.  The regular-expression dot matches
  every code unit except these.\<close>

definition is_line_terminator :: "nat \<Rightarrow> bool" where
  "is_line_terminator c = (c = 10 \<or> c = 13 \<or> c = 8232 \<or> c = 8233)"

text \<open>ECMAScript \<open>WhiteSpace\<close>: TAB, VT, FF, SP, NBSP, ZWNBSP and the space separators.\<close>

definition is_white_space :: "nat \<Rightarrow> bool" where
  "is_white_space c =
     (c = 9 \<or> c = 11 \<or> c = 12 \<or> c = 32 \<or> c = 160 \<or> c = 5760 \<or>
      (8192 \<le> c \<and> c \<le> 8202) \<or> c = 8239 \<or> c = 8287 \<or> c = 12288 \<or> c = 65279)"

text \<open>The class \<open>\s\<close> of a regular expression, which is also what \<open>String.prototype.trim\<close>
  strips: white space and line terminators.\<close>

definition is_space :: "nat \<Rightarrow> bool" where
  "is_space c = (is_white_space c \<or> is_line_terminator c)"

definition trim :: "jsstring \<Rightarrow> jsstring" where
  "trim s = rev (dropWhile is_space (rev (dropWhile is_space s)))"

text \<open>\<open>s.indexOf(pat)\<close>: the position of the leftmost occurrence, \<open>None\<close> for JavaScript's -1.\<close>

fun indexOf :: "jsstring \<Rightarrow> jsstring \<Rightarrow> nat option" where
  "indexOf [] pat = (if pat = [] then Some 0 else None)"
| "indexOf (c # cs) pat =
     (if prefix pat (c # cs) then Some 0 else map_option Suc (indexOf cs pat))"

definition js_includes :: "jsstring \<Rightarrow> jsstring \<Rightarrow> bool" where
  "js_includes s pat = (indexOf s pat \<noteq> None)"

lemma indexOf_bound: "indexOf s pat = Some i \<Longrightarrow> i + length pat \<le> length s"
proof (induction s arbitrary: i)
  case Nil
  then show ?case by (simp split: if_splits)
next
  case (Cons c cs)
  show ?case
  proof (cases "prefix pat (c # cs)")
    case True
    with Cons.prems show ?thesis using prefix_length_le [of pat "c # cs"] by simp
  next
    case False
    with Cons.prems obtain j where "indexOf cs pat = Some j" "i = Suc j" by auto
    with Cons.IH show ?thesis by fastforce
  qed
qed

text \<open>\<open>s.split(sep)\<close> with a string separator: cut at every occurrence of \<open>sep\<close>, found
  left to right, each search starting after the previous occurrence.  An empty separator
  cuts between all code units.\<close>

function js_split :: "jsstring \<Rightarrow> jsstring \<Rightarrow> jsstring list" where
  "js_split s sep =
     (if sep = [] then map (\<lambda>c. [c]) s
      else case indexOf s sep of
             None \<Rightarrow> [s]
           | Some i \<Rightarrow> take i s # js_split (drop (i + length sep) s) sep)"
  by pat_completeness auto
termination
proof (relation "measure (\<lambda>(s, sep). length s)")
  show "wf (measure (\<lambda>(s, sep). length s))" by simp
next
  fix s sep :: jsstring and i
  assume "sep \<noteq> []" and "indexOf s sep = Some i"
  then have "0 < length s" using indexOf_bound [of s sep i] by (cases s) auto
  then show "((drop (i + length sep) s, sep), (s, sep)) \<in> measure (\<lambda>(s, sep). length s)"
    using \<open>sep \<noteq> []\<close> by simp
qed

declare js_split.simps [simp del]

text \<open>\<open>parts.join(sep)\<close>.\<close>

fun js_join :: "jsstring list \<Rightarrow> jsstring \<Rightarrow> jsstring" where
  "js_join [] sep = []"
| "js_join [x] sep = x"
| "js_join (x # y # ys) sep = x @ sep @ js_join (y # ys) sep"

text \<open>
  \<open>GetSubstitution\<close> for \<open>String.prototype.replace\<close> called with a string pattern: in the
  replacement text \<open>$$\<close> stands for a dollar sign, \<open>$&\<close> for the matched text, \<open>$`\<close> for
  what precedes the match and \<open>$'\<close> for what follows it.  A string pattern has no capture
  groups, so \<open>$1\<close> and the like stay as they are.
\<close>

fun getSubstitution :: "jsstring \<Rightarrow> jsstring \<Rightarrow> jsstring \<Rightarrow> jsstring \<Rightarrow> jsstring" where
  "getSubstitution matched preceding following [] = []"
| "getSubstitution matched preceding following [c] = [c]"
| "getSubstitution matched preceding following (c # d # r) =
     (if c = 36 \<and> d = 36 then 36 # getSubstitution matched preceding following r
      else if c = 36 \<and> d = 38 then matched @ getSubstitution matched preceding following r
      else if c = 36 \<and> d = 96 then preceding @ getSubstitution matched preceding following r
      else if c = 36 \<and> d = 39 then following @ getSubstitution matched preceding following r
      else c # getSubstitution matched preceding following (d # r))"

text \<open>\<open>s.replace(pat, replacement)\<close> with a string pattern: only the leftmost occurrence
  is replaced; without an occurrence the string is returned as it is.\<close>

definition js_replace :: "jsstring \<Rightarrow> jsstring \<Rightarrow> jsstring \<Rightarrow> jsstring" where
  "js_replace s pat replacement =
     (case indexOf s pat of
        None \<Rightarrow> s
      | Some pos \<Rightarrow>
          take pos s
          @ getSubstitution pat (take pos s) (drop (pos + length pat) s) replacement
          @ drop (pos + length pat) s)"

section \<open>Regular expressions\<close>

text \<open>
  A backtracking matcher in continuation style, as the ECMAScript semantics has it: a
  pattern takes the continuation for what follows it and the text at the current
  position, and gives the first success in backtracking order.  The patterns of the
  program use neither anchors nor look-behind, so a match attempt at a position depends on
  the text from there on only.
\<close>

type_synonym 'r cont = "jsstring \<Rightarrow> 'r option"

text \<open>A literal text, case-sensitive.\<close>

definition lits :: "jsstring \<Rightarrow> 'r cont \<Rightarrow> 'r cont" where
  "lits p k s = (if prefix p s then k (drop (length p) s) else None)"

text \<open>
  Matching one pattern character under the \<open>i\<close> flag (without \<open>u\<close>): the code units
  whose \<open>Canonicalize\<close> (upper-casing of a single code unit, never from a non-ASCII to an
  ASCII one) is that of the pattern character.  The pattern characters of the program are
  upper-case ASCII letters, which also match their lower-case letter; U+00C3, U+0152 and
  U+00E1, which also match U+00E3, U+0153 and U+00C1; and caseless characters, which
  match themselves only.
\<close>

definition ci_match :: "nat \<Rightarrow> nat \<Rightarrow> bool" where
  "ci_match p c =
     (c = p \<or> (65 \<le> p \<and> p \<le> 90 \<and> c = p + 32) \<or>
      (p = 195 \<and> c = 227) \<or> (p = 338 \<and> c = 339) \<or> (p = 225 \<and> c = 193))"

fun ci_prefix :: "jsstring \<Rightarrow> jsstring \<Rightarrow> bool" where
  "ci_prefix [] s = True"
| "ci_prefix (p # ps) [] = False"
| "ci_prefix (p # ps) (c # cs) = (ci_match p c \<and> ci_prefix ps cs)"

text \<open>A literal text under the \<open>i\<close> flag.\<close>

definition lits_ci :: "jsstring \<Rightarrow> 'r cont \<Rightarrow> 'r cont" where
  "lits_ci p k s = (if ci_prefix p s then k (drop (length p) s) else None)"

text \<open>Alternation \<open>a|b\<close>: the left alternative first, the right one when the left one or
  what follows it fails.\<close>

definition alt :: "('r cont \<Rightarrow> 'r cont) \<Rightarrow> ('r cont \<Rightarrow> 'r cont) \<Rightarrow> 'r cont \<Rightarrow> 'r cont" where
  "alt a b k s = (case a k s of Some r \<Rightarrow> Some r | None \<Rightarrow> b k s)"

text \<open>Greedy \<open>\s*\<close>: as many white-space code units as possible, giving them back one by
  one while what follows fails.\<close>

fun star_space :: "'r cont \<Rightarrow> 'r cont" where
  "star_space k [] = k []"
| "star_space k (c # cs) =
     (if is_space c
      then (case star_space k cs of Some r \<Rightarrow> Some r | None \<Rightarrow> k (c # cs))
      else k (c # cs))"

text \<open>Lazy capturing \<open>(.*?)\<close>: what follows is tried first; when it fails one more code
  unit that is no line terminator is taken.  The continuation gets the captured text.\<close>

fun lazy_dot :: "(jsstring \<Rightarrow> 'r cont) \<Rightarrow> jsstring \<Rightarrow> 'r cont" where
  "lazy_dot k acc [] = k acc []"
| "lazy_dot k acc (c # cs) =
     (case k acc (c # cs) of
        Some r \<Rightarrow> Some r
      | None \<Rightarrow> if is_line_terminator c then None else lazy_dot k (acc @ [c]) cs)"

text \<open>Greedy capturing \<open>(.*)\<close> at the end of a pattern: everything up to the next line
  terminator.\<close>

definition greedy_dot_end :: "jsstring \<Rightarrow> jsstring \<times> jsstring" where
  "greedy_dot_end s =
     (takeWhile (\<lambda>c. \<not> is_line_terminator c) s, dropWhile (\<lambda>c. \<not> is_line_terminator c) s)"

text \<open>Lazy capturing \<open>([\s\S]*?)\<close>: as \<open>lazy_dot\<close>, over every code unit.\<close>

fun lazy_any :: "(jsstring \<Rightarrow> 'r cont) \<Rightarrow> jsstring \<Rightarrow> 'r cont" where
  "lazy_any k acc [] = k acc []"
| "lazy_any k acc (c # cs) =
     (case k acc (c # cs) of Some r \<Rightarrow> Some r | None \<Rightarrow> lazy_any k (acc @ [c]) cs)"

text \<open>A match: its index, the matched text \<open>m[0]\<close> and the captures.\<close>

type_synonym 'c regex_match = "nat \<times> jsstring \<times> 'c"

text \<open>
  \<open>s.matchAll(re)\<close> for a global pattern: the matcher is tried at each position from left
  to right; after a match the search goes on at its end (one further after an empty match).
  A matcher gives the captures and the text that remains after the match.
\<close>

function matchAllFrom :: "(jsstring \<Rightarrow> ('c \<times> jsstring) option) \<Rightarrow> nat \<Rightarrow> jsstring \<Rightarrow> 'c regex_match list" where
  "matchAllFrom m i s =
     (case m s of
        Some (caps, rest) \<Rightarrow>
          (let n = length s - length rest
           in (i, take n s, caps) #
              (if s = [] then [] else matchAllFrom m (i + max 1 n) (drop (max 1 n) s)))
      | None \<Rightarrow> (case s of [] \<Rightarrow> [] | c # cs \<Rightarrow> matchAllFrom m (Suc i) cs))"
  by pat_completeness auto
termination
  by (relation "measure (\<lambda>(m, i, s). length s)") auto

declare matchAllFrom.simps [simp del]

definition matchAll :: "(jsstring \<Rightarrow> ('c \<times> jsstring) option) \<Rightarrow> jsstring \<Rightarrow> 'c regex_match list" where
  "matchAll m s = matchAllFrom m 0 s"

text \<open>\<open>s.match(re)\<close> and \<open>s.replace(re, "")\<close> without the \<open>g\<close> flag use the leftmost match
  only; \<open>s.replace(re, "")\<close> with the \<open>g\<close> flag deletes every match.\<close>

fun firstMatch :: "(jsstring \<Rightarrow> ('c \<times> jsstring) option) \<Rightarrow> jsstring \<Rightarrow> 'c option" where
  "firstMatch m [] = map_option fst (m [])"
| "firstMatch m (c # cs) =
     (case m (c # cs) of Some (caps, rest) \<Rightarrow> Some caps | None \<Rightarrow> firstMatch m cs)"

fun deleteFirst :: "(jsstring \<Rightarrow> ('c \<times> jsstring) option) \<Rightarrow> jsstring \<Rightarrow> jsstring" where
  "deleteFirst m [] = []"
| "deleteFirst m (c # cs) =
     (case m (c # cs) of Some (caps, rest) \<Rightarrow> rest | None \<Rightarrow> c # deleteFirst m cs)"

function deleteAll :: "(jsstring \<Rightarrow> ('c \<times> jsstring) option) \<Rightarrow> jsstring \<Rightarrow> jsstring" where
  "deleteAll m s =
     (case s of
        [] \<Rightarrow> []
      | c # cs \<Rightarrow>
          (case m s of
             Some (caps, rest) \<Rightarrow>
               (if length rest < length s then deleteAll m rest else c # deleteAll m cs)
           | None \<Rightarrow> c # deleteAll m cs))"
  by pat_completeness auto
termination
  by (relation "measure (\<lambda>(m, s). length s)") auto

declare deleteAll.simps [simp del]

section \<open>The content generation client (services/geminiService.ts)\<close>

datatype OutputLanguage = Vi | En

text \<open>What the client reads of a thrown value: \<open>status\<close>, \<open>code\<close>, \<open>message\<close>, and its
  string form (\<open>Error.prototype.toString\<close>).\<close>

record js_error =
  err_name :: jsstring
  err_message :: jsstring
  err_status :: "int option"
  err_code :: "int option"

definition error_toString :: "js_error \<Rightarrow> jsstring" where
  "error_toString e =
     (if err_name e = [] then err_message e
      else if err_message e = [] then err_name e
      else err_name e @ asc '': '' @ err_message e)"

text \<open>The prompt records stand for the fixed prompt texts of the four text stages, which
  are functions of the keyword and the language only.\<close>

datatype step_prompt =
    Step1 jsstring OutputLanguage
  | Step2 jsstring OutputLanguage
  | Step3 OutputLanguage
  | Step4 jsstring OutputLanguage

text \<open>A reply of the text model: its text and the web sources of its grounding chunks
  (title and uri; \<open>None\<close> for a chunk without a \<open>web\<close> entry).\<close>

record text_response =
  resp_text :: jsstring
  resp_chunks :: "(jsstring \<times> jsstring) option list"

text \<open>A reply of the image model: the call throws, or returns parts, each with or without
  inline data (MIME type and base64 data).\<close>

datatype image_response =
    ImageThrows js_error
  | ImageParts "(jsstring \<times> jsstring) option list"

record HistoryItem =
  item_id :: jsstring
  keyword :: jsstring
  content :: jsstring
  timestamp :: int
  language :: "OutputLanguage option"

text \<open>The effects, recorded in the order in which they happen: a message sent to the chat
  session, a call of \<open>generateBlogImage\<close> with its prompt, a call of the image model, a timer
  wait in milliseconds, a call of \<open>saveHistoryItem\<close> with its argument, and a record put into
  the object store.\<close>

datatype event =
    SendMessage step_prompt
  | CallGenerateBlogImage jsstring
  | GenerateContent jsstring
  | Sleep nat
  | CallSaveHistoryItem HistoryItem
  | StorePut HistoryItem

text \<open>
  The surroundings of the program: the remote models, the browser's image compression,
  the clock, the random source and the browser's database.  Each remote call is answered
  by the reply with the call's number, so that any sequence of replies can be given; in
  the same way each request to the database (opening it, putting a record) succeeds
  (\<open>None\<close>) or fails with an error, as \<open>db_reply\<close> says for the request's number.
\<close>

record env =
  text_api :: "nat \<Rightarrow> step_prompt \<Rightarrow> js_error + text_response"
  image_api :: "nat \<Rightarrow> jsstring \<Rightarrow> image_response"
  canvas_jpeg :: "jsstring \<Rightarrow> jsstring option"
  date_now :: "nat \<Rightarrow> int"
  random_suffix :: "nat \<Rightarrow> jsstring"
  db_reply :: "nat \<Rightarrow> js_error option"

text \<open>The mutable world: the module variable \<open>chatSession\<close> (set or null), the numbers of
  calls and of database requests made so far, the object store of the database, and the
  effects in order.\<close>

record world =
  chatSession :: bool
  text_calls :: nat
  image_calls :: nat
  clock_reads :: nat
  db_requests :: nat
  store :: "HistoryItem list"
  trace :: "event list"

definition emit :: "event \<Rightarrow> world \<Rightarrow> world" where
  "emit ev w = w\<lparr>trace := trace w @ [ev]\<rparr>"

text \<open>\<open>compressBase64\<close>: the canvas gives a JPEG data URI; when the image does not load or
  no 2d context is available the input comes back.  It never rejects.\<close>

definition compressBase64 :: "env \<Rightarrow> jsstring \<Rightarrow> jsstring" where
  "compressBase64 env base64Str =
     (case canvas_jpeg env base64Str of Some compressed \<Rightarrow> compressed | None \<Rightarrow> base64Str)"

definition maxRetries :: nat where
  "maxRetries = 5"

definition enhancedContext :: jsstring where
  "enhancedContext =
     [98, 7889, 105, 32, 99, 7843, 110, 104, 32, 86, 105, 7879, 116, 32, 78, 97, 109, 44, 32,
      110, 103, 432, 7901, 105, 32, 86, 105, 7879, 116, 32, 78, 97, 109, 44, 32, 112, 104, 111,
      110, 103, 32, 99, 225, 99, 104, 32, 99, 104, 226, 110, 32, 116, 104, 7921, 99, 44, 32,
      7843, 110, 104, 32, 99, 104, 7909, 112, 32, 99, 104, 7845, 116, 32, 108, 432, 7907, 110,
      103, 32, 99, 97, 111, 44, 32, 52, 107, 46, 32]
     @ asc ''(Vietnamese context, realistic style, high quality photography, cinematic lighting).''"

definition finalPrompt :: "jsstring \<Rightarrow> jsstring" where
  "finalPrompt prompt =
     asc ''Generate a realistic image based on this description: \"'' @ prompt @ asc ''\". ''
     @ enhancedContext"

definition isRateLimit :: "js_error \<Rightarrow> bool" where
  "isRateLimit error =
     (err_status error = Some 429 \<or> err_code error = Some 429 \<or>
      (err_message error \<noteq> [] \<and>
       (js_includes (err_message error) (asc ''429'') \<or> js_includes (err_message error) (asc ''quota''))))"

text \<open>The first part with inline data, as the \<open>for\<close> loop over the parts finds it.\<close>

fun firstInlineData :: "(jsstring \<times> jsstring) option list \<Rightarrow> (jsstring \<times> jsstring) option" where
  "firstInlineData [] = None"
| "firstInlineData (None # parts) = firstInlineData parts"
| "firstInlineData (Some d # parts) = Some d"

definition rawBase64 :: "jsstring \<Rightarrow> jsstring \<Rightarrow> jsstring" where
  "rawBase64 mimeType dat = asc ''data:'' @ mimeType @ asc '';base64,'' @ dat"

text \<open>
  \<open>generateBlogImage\<close>: the \<open>while (attempt < maxRetries)\<close> loop, one call of the image
  model per iteration inside \<open>try\<close>.  The result is \<open>Inl\<close> for an error that reaches the
  caller and \<open>Inr\<close> for a returned value (\<open>None\<close> is JavaScript's null).
\<close>

function generateBlogImage_loop ::
  "env \<Rightarrow> jsstring \<Rightarrow> nat \<Rightarrow> world \<Rightarrow> (js_error + jsstring option) \<times> world" where
  "generateBlogImage_loop env prompt attempt w =
     (if attempt < maxRetries then
        (let w1 = emit (GenerateContent (finalPrompt prompt)) (w\<lparr>image_calls := image_calls w + 1\<rparr>)
         in case image_api env (image_calls w) (finalPrompt prompt) of
              ImageParts parts \<Rightarrow>
                (case firstInlineData parts of
                   Some (mimeType, dat) \<Rightarrow>
                     (Inr (Some (compressBase64 env (rawBase64 mimeType dat))), w1)
                 | None \<Rightarrow> (Inr None, w1))
            | ImageThrows error \<Rightarrow>
                (if isRateLimit error then
                   (let attempt' = attempt + 1
                    in if attempt' < maxRetries then
                         generateBlogImage_loop env prompt attempt'
                           (emit (Sleep (5000 * 2 ^ (attempt' - 1))) w1)
                       else (Inr None, w1))
                 else (Inr None, w1)))
      else (Inr None, w))"
  by pat_completeness auto
termination
  by (relation "measure (\<lambda>(env, prompt, attempt, w). maxRetries - attempt)") auto

declare generateBlogImage_loop.simps [simp del]

definition generateBlogImage ::
  "env \<Rightarrow> jsstring \<Rightarrow> world \<Rightarrow> (js_error + jsstring option) \<times> world" where
  "generateBlogImage env prompt w =
     generateBlogImage_loop env prompt 0 (emit (CallGenerateBlogImage prompt) w)"

text \<open>The text stages.  \<open>sendMessage\<close> is the remote call; a thrown error is logged and
  thrown again by each stage.\<close>

definition resetSession :: "world \<Rightarrow> world" where
  "resetSession w = w\<lparr>chatSession := False\<rparr>"

definition initializeSession :: "OutputLanguage \<Rightarrow> world \<Rightarrow> world" where
  "initializeSession lang w = w\<lparr>chatSession := True\<rparr>"

definition sendMessage :: "env \<Rightarrow> step_prompt \<Rightarrow> world \<Rightarrow> (js_error + text_response) \<times> world" where
  "sendMessage env prompt w =
     (text_api env (text_calls w) prompt,
      emit (SendMessage prompt) (w\<lparr>text_calls := text_calls w + 1\<rparr>))"

definition sourcesHeader :: jsstring where
  "sourcesHeader =
     [10, 10, 35, 35, 35, 32, 78, 103, 117, 7891, 110, 32, 116, 104, 97, 109, 32, 107, 104,
      7843, 111, 32, 40, 83, 111, 117, 114, 99, 101, 115, 41, 10]"

fun sourceLines :: "(jsstring \<times> jsstring) option list \<Rightarrow> jsstring" where
  "sourceLines [] = []"
| "sourceLines (None # chunks) = sourceLines chunks"
| "sourceLines (Some (title, uri) # chunks) =
     asc ''- ['' @ (if title = [] then asc ''Source'' else title) @ asc '']('' @ uri @ asc '')'' @ [10]
     @ sourceLines chunks"

definition appendSources :: "jsstring \<Rightarrow> text_response \<Rightarrow> jsstring" where
  "appendSources text response =
     (if resp_chunks response = [] then text
      else text @ sourcesHeader @ sourceLines (resp_chunks response))"

definition sessionNotInitialized :: js_error where
  "sessionNotInitialized =
     \<lparr>err_name = asc ''Error'', err_message = asc ''Session not initialized'',
      err_status = None, err_code = None\<rparr>"

definition executeStep1 :: "env \<Rightarrow> jsstring \<Rightarrow> OutputLanguage \<Rightarrow> world \<Rightarrow> (js_error + jsstring) \<times> world" where
  "executeStep1 env kw lang w =
     (let w0 = (if \<not> chatSession w then initializeSession lang w else w)
      in case sendMessage env (Step1 kw lang) w0 of
           (Inl error, w1) \<Rightarrow> (Inl error, w1)
         | (Inr response, w1) \<Rightarrow>
             (Inr (appendSources
                     (if resp_text response = [] then asc ''Data DS1 processed.''
                      else resp_text response) response), w1))"

definition executeStep2 :: "env \<Rightarrow> jsstring \<Rightarrow> OutputLanguage \<Rightarrow> world \<Rightarrow> (js_error + jsstring) \<times> world" where
  "executeStep2 env kw lang w =
     (let w0 = (if \<not> chatSession w then initializeSession lang w else w)
      in case sendMessage env (Step2 kw lang) w0 of
           (Inl error, w1) \<Rightarrow> (Inl error, w1)
         | (Inr response, w1) \<Rightarrow> (Inr (appendSources (resp_text response) response), w1))"

definition executeStep3 :: "env \<Rightarrow> OutputLanguage \<Rightarrow> world \<Rightarrow> (js_error + jsstring) \<times> world" where
  "executeStep3 env lang w =
     (if \<not> chatSession w then (Inl sessionNotInitialized, w)
      else case sendMessage env (Step3 lang) w of
             (Inl error, w1) \<Rightarrow> (Inl error, w1)
           | (Inr response, w1) \<Rightarrow> (Inr (appendSources (resp_text response) response), w1))"

definition executeStep4 :: "env \<Rightarrow> jsstring \<Rightarrow> OutputLanguage \<Rightarrow> world \<Rightarrow> (js_error + jsstring) \<times> world" where
  "executeStep4 env kw lang w =
     (if \<not> chatSession w then (Inl sessionNotInitialized, w)
      else case sendMessage env (Step4 kw lang) w of
             (Inl error, w1) \<Rightarrow> (Inl error, w1)
           | (Inr response, w1) \<Rightarrow> (Inr (appendSources (resp_text response) response), w1))"

section \<open>The history store (storageService)\<close>

text \<open>Decimal numerals, as \<open>Number.prototype.toString\<close> and template literals write
  integers.\<close>

function decimal :: "nat \<Rightarrow> jsstring" where
  "decimal n = (if n < 10 then [48 + n] else decimal (n div 10) @ [48 + n mod 10])"
  by pat_completeness auto
termination
  by (relation "measure id") auto

declare decimal.simps [simp del]

definition int_toString :: "int \<Rightarrow> jsstring" where
  "int_toString i = (if i < 0 then 45 # decimal (nat (- i)) else decimal (nat i))"

text \<open>
  \<open>openDB\<close>: the promise resolves with the database, or rejects when IndexedDB is missing
  or the open request fails.
\<close>

definition openDB :: "env \<Rightarrow> world \<Rightarrow> (js_error + unit) \<times> world" where
  "openDB env w =
     (case db_reply env (db_requests w) of
        None \<Rightarrow> (Inr (), w\<lparr>db_requests := db_requests w + 1\<rparr>)
      | Some e \<Rightarrow> (Inl e, w\<lparr>db_requests := db_requests w + 1\<rparr>))"

text \<open>
  The object store keeps one record per id (\<open>keyPath: 'id'\<close>): \<open>put\<close> replaces the record
  with the same id.  The promise around the put request rejects when the request fails.
\<close>

definition storePut :: "env \<Rightarrow> HistoryItem \<Rightarrow> world \<Rightarrow> (js_error + unit) \<times> world" where
  "storePut env uniqueItem w =
     (case db_reply env (db_requests w) of
        None \<Rightarrow>
          (Inr (),
           emit (StorePut uniqueItem)
             (w\<lparr>db_requests := db_requests w + 1,
                store := uniqueItem # filter (\<lambda>i. item_id i \<noteq> item_id uniqueItem) (store w)\<rparr>))
      | Some e \<Rightarrow> (Inl e, w\<lparr>db_requests := db_requests w + 1\<rparr>))"

text \<open>
  \<open>getHistory\<close>: when the database cannot be opened the \<open>catch\<close> branch logs and returns the
  empty list.  Otherwise \<open>getAll\<close> gives the records in the order of their keys, and they
  are sorted, stably, by descending timestamp.  The \<open>getAll\<close> request on an opened database
  is taken to succeed: its \<open>onerror\<close> path is not modelled.
\<close>

definition getHistory :: "env \<Rightarrow> world \<Rightarrow> HistoryItem list \<times> world" where
  "getHistory env w =
     (case openDB env w of
        (Inl e, w1) \<Rightarrow> ([], w1)
      | (Inr db, w1) \<Rightarrow> (sort_key (\<lambda>item. - timestamp item) (sort_key item_id (store w1)), w1))"

text \<open>
  \<open>saveHistoryItem\<close>: inside \<open>try\<close>, the database is opened, the record gets an id when it
  has none, and is put; then the history is returned.  When opening or putting fails, the
  \<open>catch\<close> branch logs and returns the history, and nothing has been stored.
\<close>

definition saveHistoryItem :: "env \<Rightarrow> HistoryItem \<Rightarrow> world \<Rightarrow> HistoryItem list \<times> world" where
  "saveHistoryItem env item w =
     (let w0 = emit (CallSaveHistoryItem item) w
      in case openDB env w0 of
           (Inl e, w1) \<Rightarrow> getHistory env w1
         | (Inr db, w1) \<Rightarrow>
             (let (new_id, w2) =
                    (if item_id item \<noteq> [] then (item_id item, w1)
                     else (int_toString (date_now env (clock_reads w1)) @ asc ''-''
                             @ random_suffix env (clock_reads w1),
                           w1\<lparr>clock_reads := clock_reads w1 + 1\<rparr>));
                  uniqueItem = item\<lparr>item_id := new_id\<rparr>
              in case storePut env uniqueItem w2 of
                   (Inl e, w3) \<Rightarrow> getHistory env w3
                 | (Inr u, w3) \<Rightarrow> getHistory env w3))"

section \<open>The pipeline orchestrator (App)\<close>

datatype StepStatus = IDLE | LOADING | COMPLETE | ERROR

text \<open>The component state that the bulk run reads and writes.  The presentation-only
  state (\<open>statusMessage\<close>, \<open>currentStep\<close>, \<open>ideationResult\<close>, \<open>outlineResult\<close>) is left out.\<close>

record app_state =
  status :: StepStatus
  bulkInput :: jsstring
  selected_language :: OutputLanguage
  queue :: "jsstring list"
  completedCount :: int
  totalCount :: int
  currentKeyword :: jsstring
  articleResult :: jsstring
  history :: "HistoryItem list"

text \<open>A run: the component state, the world, and the component state as it stood at each
  \<open>await\<close>, where the function is suspended and the state updates made so far are
  rendered.\<close>

record run =
  app :: app_state
  wld :: world
  renders :: "app_state list"

definition await :: "run \<Rightarrow> run" where
  "await r = r\<lparr>renders := renders r @ [app r]\<rparr>"

definition sleep :: "nat \<Rightarrow> run \<Rightarrow> run" where
  "sleep ms r = (await r)\<lparr>wld := emit (Sleep ms) (wld r)\<rparr>"

definition legacyName :: jsstring where
  "legacyName = [72, 195, 338, 78, 72, 32, 225, 186, 162, 78, 72]"

text \<open>The pattern
  \<^verbatim>\<open>/\[(?:FEATURED_IMAGE_PROMPT|IMAGE_PROMPT|<legacy name>):\s*(.*?)\]/gi\<close>;
  the capture is the prompt.\<close>

definition imageRegex :: "jsstring \<Rightarrow> (jsstring \<times> jsstring) option" where
  "imageRegex =
     lits (asc ''['')
       (alt (lits_ci (asc ''FEATURED_IMAGE_PROMPT''))
            (alt (lits_ci (asc ''IMAGE_PROMPT'')) (lits_ci legacyName))
          (lits (asc '':'')
             (star_space
                (lazy_dot (\<lambda>prompt. lits (asc '']'') (\<lambda>rest. Some (prompt, rest))) []))))"

definition markdownImage :: "bool \<Rightarrow> jsstring \<Rightarrow> jsstring \<Rightarrow> jsstring" where
  "markdownImage isFeatured prompt base64Image =
     (if isFeatured then [10] @ asc ''![FEATURED_IMAGE]('' @ base64Image @ asc '')'' @ [10]
      else [10, 10] @ asc ''!['' @ prompt @ asc '']('' @ base64Image @ asc '')'' @ [10])"

text \<open>The loop \<open>for (const m of matches)\<close>.  A null or empty result of
  \<open>generateBlogImage\<close> is falsy.\<close>

fun imageLoop ::
  "env \<Rightarrow> nat \<Rightarrow> jsstring regex_match list \<Rightarrow> nat \<Rightarrow> jsstring \<Rightarrow> run \<Rightarrow> (js_error + jsstring) \<times> run" where
  "imageLoop env matchCount [] processedCount finalArticle r = (Inr finalArticle, r)"
| "imageLoop env matchCount ((idx, fullTag, prompt) # ms) processedCount finalArticle r =
     (let isFeatured = js_includes fullTag (asc ''FEATURED_IMAGE_PROMPT'');
          r0 = await r
      in case generateBlogImage env prompt (wld r0) of
           (Inl error, w1) \<Rightarrow> (Inl error, r0\<lparr>wld := w1\<rparr>)
         | (Inr base64Image, w1) \<Rightarrow>
             (let finalArticle' =
                    (case base64Image of
                       Some b \<Rightarrow>
                         (if b \<noteq> [] then js_replace finalArticle fullTag (markdownImage isFeatured prompt b)
                          else js_replace finalArticle fullTag [])
                     | None \<Rightarrow> js_replace finalArticle fullTag []);
                  r1 = r0\<lparr>wld := w1, app := (app r0)\<lparr>articleResult := finalArticle'\<rparr>\<rparr>;
                  r2 = (if processedCount + 1 < matchCount then sleep 6000 r1 else r1)
              in imageLoop env matchCount ms (processedCount + 1) finalArticle' r2))"

definition resolveImages :: "env \<Rightarrow> jsstring \<Rightarrow> run \<Rightarrow> (js_error + jsstring) \<times> run" where
  "resolveImages env rawArticle r =
     (let matches = matchAll imageRegex rawArticle
      in imageLoop env (length matches) matches 0 rawArticle r)"

text \<open>Saving through the store and \<open>setHistory\<close> with what it returns.\<close>

definition saveAndSetHistory :: "env \<Rightarrow> HistoryItem \<Rightarrow> run \<Rightarrow> run" where
  "saveAndSetHistory env item r =
     (let r0 = await r;
          (updatedHistory, w1) = saveHistoryItem env item (wld r0)
      in r0\<lparr>wld := w1, app := (app r0)\<lparr>history := updatedHistory\<rparr>\<rparr>)"

definition readClock :: "env \<Rightarrow> run \<Rightarrow> int \<times> run" where
  "readClock env r =
     (date_now env (clock_reads (wld r)),
      r\<lparr>wld := (wld r)\<lparr>clock_reads := clock_reads (wld r) + 1\<rparr>\<rparr>)"

text \<open>The \<open>try\<close> block of \<open>processNextKeyword\<close>: \<open>Inl\<close> is an error thrown out of it, with
  the run as it stood then.\<close>

definition tryBlock :: "env \<Rightarrow> jsstring \<Rightarrow> OutputLanguage \<Rightarrow> run \<Rightarrow> (js_error + unit) \<times> run" where
  "tryBlock env kw selectedLang r =
     (let r1 = await r
      in case executeStep1 env kw selectedLang (wld r1) of
           (Inl error, w) \<Rightarrow> (Inl error, r1\<lparr>wld := w\<rparr>)
         | (Inr research, w) \<Rightarrow>
     (let r2 = await (r1\<lparr>wld := w\<rparr>)
      in case executeStep2 env kw selectedLang (wld r2) of
           (Inl error, w) \<Rightarrow> (Inl error, r2\<lparr>wld := w\<rparr>)
         | (Inr ideation, w) \<Rightarrow>
     (let r3 = await (r2\<lparr>wld := w\<rparr>)
      in case executeStep3 env selectedLang (wld r3) of
           (Inl error, w) \<Rightarrow> (Inl error, r3\<lparr>wld := w\<rparr>)
         | (Inr outline, w) \<Rightarrow>
     (let r4 = await (r3\<lparr>wld := w\<rparr>)
      in case executeStep4 env kw selectedLang (wld r4) of
           (Inl error, w) \<Rightarrow> (Inl error, r4\<lparr>wld := w\<rparr>)
         | (Inr rawArticle, w) \<Rightarrow>
     (let r5 = r4\<lparr>wld := w, app := (app r4)\<lparr>articleResult := rawArticle\<rparr>\<rparr>
      in case resolveImages env rawArticle r5 of
           (Inl error, r6) \<Rightarrow> (Inl error, r6)
         | (Inr finalArticle, r6) \<Rightarrow>
     (let (now, r7) = readClock env r6;
          newItem = \<lparr>item_id = [], keyword = kw, content = finalArticle, timestamp = now,
                     language = Some selectedLang\<rparr>;
          r8 = saveAndSetHistory env newItem r7;
          r9 = r8\<lparr>app := (app r8)\<lparr>completedCount := completedCount (app r8) + 1\<rparr>\<rparr>
      in (Inr (), sleep 3000 r9)))))))"

text \<open>The \<open>catch\<close> block.\<close>

definition catchBlock :: "env \<Rightarrow> jsstring \<Rightarrow> OutputLanguage \<Rightarrow> js_error \<Rightarrow> run \<Rightarrow> run" where
  "catchBlock env kw selectedLang error r =
     (let (now, r1) = readClock env r;
          errorItem = \<lparr>item_id = [], keyword = kw @ asc '' (FAILED)'',
                       content = asc ''Error processing: '' @ error_toString error,
                       timestamp = now, language = Some selectedLang\<rparr>;
          r2 = saveAndSetHistory env errorItem r1
      in sleep 2000 r2)"

text \<open>The statements of \<open>processNextKeyword\<close> before its \<open>try\<close> block, for the keyword
  \<open>kw = remainingQueue[0]\<close> and \<open>nextQueue = remainingQueue.slice(1)\<close>.\<close>

definition beginKeyword :: "int \<Rightarrow> jsstring \<Rightarrow> jsstring list \<Rightarrow> run \<Rightarrow> run" where
  "beginKeyword totalCount_captured kw nextQueue r =
     r\<lparr>app := (app r)\<lparr>currentKeyword := kw, queue := nextQueue,
               completedCount := totalCount_captured - int (length (kw # nextQueue)),
               articleResult := []\<rparr>,
        wld := resetSession (wld r)\<rparr>"

text \<open>
  \<open>processNextKeyword\<close>.  The function is a closure of the render in which the run was
  started, and so is the \<open>processNextKeyword\<close> that it calls for the next keyword: the
  \<open>totalCount\<close> that it reads is that render's constant, here the parameter
  \<open>totalCount_captured\<close>, not the current state.
\<close>

fun processNextKeyword :: "env \<Rightarrow> int \<Rightarrow> jsstring list \<Rightarrow> OutputLanguage \<Rightarrow> run \<Rightarrow> run" where
  "processNextKeyword env totalCount_captured [] selectedLang r =
     r\<lparr>app := (app r)\<lparr>status := COMPLETE, currentKeyword := []\<rparr>\<rparr>"
| "processNextKeyword env totalCount_captured (kw # nextQueue) selectedLang r =
     (let r0 = beginKeyword totalCount_captured kw nextQueue r
      in case tryBlock env kw selectedLang r0 of
           (Inr u, r1) \<Rightarrow> processNextKeyword env totalCount_captured nextQueue selectedLang r1
         | (Inl error, r1) \<Rightarrow>
             processNextKeyword env totalCount_captured nextQueue selectedLang
               (catchBlock env kw selectedLang error r1))"

text \<open>The keywords of the bulk input:
  \<^verbatim>\<open>bulkInput.split('\n').map(k => k.trim()).filter(k => k.length > 0)\<close>.\<close>

definition bulkKeywords :: "jsstring \<Rightarrow> jsstring list" where
  "bulkKeywords input = filter (\<lambda>k. length k > 0) (map trim (js_split input [10]))"

text \<open>
  \<open>handleStartBulk\<close>, the click handler of the render that shows the state \<open>app r\<close>.  Its
  \<open>set...\<close> calls change the state; the \<open>totalCount\<close> and \<open>language\<close> that the closures of
  this render read stay those of \<open>app r\<close>.
\<close>

definition handleStartBulk :: "env \<Rightarrow> run \<Rightarrow> run" where
  "handleStartBulk env r =
     (let keywords = bulkKeywords (bulkInput (app r))
      in if length keywords = 0 then r
         else processNextKeyword env (totalCount (app r)) keywords (selected_language (app r))
                (r\<lparr>app := (app r)\<lparr>queue := keywords, totalCount := int (length keywords),
                      completedCount := 0, status := LOADING\<rparr>\<rparr>))"

section \<open>Notions used in the statements\<close>

text \<open>
  The rate-limit signal as the specification words it: a thrown error whose status or code
  is 429, or whose message contains \<open>429\<close> or \<open>quota\<close>.  It is written without the
  functions of the client, to be compared with what the wrapper tests.
\<close>

definition rate_limit_signal :: "image_response \<Rightarrow> bool" where
  "rate_limit_signal reply =
     (case reply of
        ImageThrows e \<Rightarrow>
          err_status e = Some 429 \<or> err_code e = Some 429 \<or>
          sublist (asc ''429'') (err_message e) \<or> sublist (asc ''quota'') (err_message e)
      | ImageParts parts \<Rightarrow> False)"

text \<open>What the wrapper returns when it stops at a reply: the compressed first inline image of
  the parts, null when there is none, and null for every thrown error.\<close>

definition reply_value :: "env \<Rightarrow> image_response \<Rightarrow> jsstring option" where
  "reply_value env reply =
     (case reply of
        ImageThrows e \<Rightarrow> None
      | ImageParts parts \<Rightarrow>
          map_option (\<lambda>(mimeType, dat). compressBase64 env (rawBase64 mimeType dat))
            (firstInlineData parts))"

definition rate_limit_error :: js_error where
  "rate_limit_error =
     \<lparr>err_name = asc ''ApiError'', err_message = asc ''Resource exhausted'',
      err_status = Some 429, err_code = None\<rparr>"

definition env_always_rate_limited :: env where
  "env_always_rate_limited =
     \<lparr>text_api = (\<lambda>n p. Inl rate_limit_error),
      image_api = (\<lambda>n p. ImageThrows rate_limit_error),
      canvas_jpeg = (\<lambda>s. None),
      date_now = (\<lambda>n. 0),
      random_suffix = (\<lambda>n. []),
      db_reply = (\<lambda>n. None)\<rparr>"

text \<open>Errors that carry no rate-limit signal, and one that carries it in its message only.\<close>

definition server_error :: js_error where
  "server_error =
     \<lparr>err_name = asc ''ApiError'', err_message = asc ''Internal error'',
      err_status = Some 500, err_code = Some 500\<rparr>"

definition quota_error :: js_error where
  "quota_error =
     \<lparr>err_name = asc ''Error'', err_message = asc ''You exceeded your current quota'',
      err_status = None, err_code = None\<rparr>"

definition code_429_error :: js_error where
  "code_429_error =
     \<lparr>err_name = asc ''Error'', err_message = [], err_status = None, err_code = Some 429\<rparr>"

definition message_429_error :: js_error where
  "message_429_error =
     \<lparr>err_name = asc ''Error'', err_message = asc ''got status: 429 Too Many Requests'',
      err_status = None, err_code = None\<rparr>"

text \<open>Surroundings in which the image model throws a server error at every call; and
  surroundings in which it throws three errors that carry the signal in the message, in
  the code and in the message again, and then answers with a PNG.\<close>

definition env_server_error :: env where
  "env_server_error =
     \<lparr>text_api = (\<lambda>n p. Inl server_error),
      image_api = (\<lambda>n p. ImageThrows server_error),
      canvas_jpeg = (\<lambda>s. None),
      date_now = (\<lambda>n. 0),
      random_suffix = (\<lambda>n. []),
      db_reply = (\<lambda>n. None)\<rparr>"

definition env_limited_then_image :: env where
  "env_limited_then_image =
     \<lparr>text_api = (\<lambda>n p. Inl server_error),
      image_api = (\<lambda>n p. if n = 0 then ImageThrows quota_error
                           else if n = 1 then ImageThrows code_429_error
                           else if n = 2 then ImageThrows message_429_error
                           else ImageParts [None, Some (asc ''image/png'', asc ''QUJD'')]),
      canvas_jpeg = (\<lambda>s. None),
      date_now = (\<lambda>n. 0),
      random_suffix = (\<lambda>n. []),
      db_reply = (\<lambda>n. None)\<rparr>"

definition world0 :: world where
  "world0 =
     \<lparr>chatSession = False, text_calls = 0, image_calls = 0, clock_reads = 0, db_requests = 0,
      store = [], trace = []\<rparr>"

text \<open>The component as first mounted, with a text in the bulk input.\<close>

definition fresh_app :: app_state where
  "fresh_app =
     \<lparr>status = IDLE, bulkInput = [], selected_language = Vi, queue = [], completedCount = 0,
      totalCount = 0, currentKeyword = [], articleResult = [], history = []\<rparr>"

definition fresh_run :: "jsstring \<Rightarrow> run" where
  "fresh_run input = \<lparr>app = fresh_app\<lparr>bulkInput := input\<rparr>, wld = world0, renders = []\<rparr>"

definition service_error :: js_error where
  "service_error =
     \<lparr>err_name = asc ''Error'', err_message = asc ''boom'', err_status = None, err_code = None\<rparr>"

text \<open>Surroundings in which every text stage answers \<open>text\<close> without sources, except that
  stage 1 throws for the keyword \<open>B\<close>, and the image model gives no image.\<close>

definition env_B_fails :: env where
  "env_B_fails =
     \<lparr>text_api = (\<lambda>n p. if p = Step1 (asc ''B'') Vi then Inl service_error
                          else Inr \<lparr>resp_text = asc ''text'', resp_chunks = []\<rparr>),
      image_api = (\<lambda>n p. ImageParts []),
      canvas_jpeg = (\<lambda>s. None),
      date_now = (\<lambda>n. 1000 + int n),
      random_suffix = (\<lambda>n. asc ''abc''),
      db_reply = (\<lambda>n. None)\<rparr>"






definition input_A_B :: jsstring where
  "input_A_B = asc ''A'' @ [10] @ asc ''B''"

definition input_A :: jsstring where
  "input_A = asc ''A''"

definition input_blank :: jsstring where
  "input_blank = asc ''  '' @ [10] @ [9, 13]"

text \<open>Surroundings in which the image model answers every call with a PNG and the browser
  compresses it to a JPEG data URI; and surroundings in which it does so for its first
  call only and gives no image afterwards.\<close>

definition jpeg_uri :: jsstring where
  "jpeg_uri = asc ''data:image/jpeg;base64,AA''"

definition env_images :: env where
  "env_images =
     \<lparr>text_api = (\<lambda>n p. Inr \<lparr>resp_text = asc ''text'', resp_chunks = []\<rparr>),
      image_api = (\<lambda>n p. ImageParts [Some (asc ''image/png'', asc ''QUJD'')]),
      canvas_jpeg = (\<lambda>s. Some jpeg_uri),
      date_now = (\<lambda>n. 1000 + int n),
      random_suffix = (\<lambda>n. asc ''abc''),
      db_reply = (\<lambda>n. None)\<rparr>"

definition env_first_image_only :: env where
  "env_first_image_only =
     \<lparr>text_api = (\<lambda>n p. Inr \<lparr>resp_text = asc ''text'', resp_chunks = []\<rparr>),
      image_api = (\<lambda>n p. if n = 0 then ImageParts [Some (asc ''image/png'', asc ''QUJD'')]
                           else ImageParts []),
      canvas_jpeg = (\<lambda>s. Some jpeg_uri),
      date_now = (\<lambda>n. 1000 + int n),
      random_suffix = (\<lambda>n. asc ''abc''),
      db_reply = (\<lambda>n. None)\<rparr>"

text \<open>The raw article of the example of C2, and a raw article in which the prompt of the
  first placeholder contains an opening bracket.\<close>

definition raw_example :: jsstring where
  "raw_example =
     asc ''[FEATURED_IMAGE_PROMPT: x]'' @ [10] @ asc ''Hello'' @ [10] @ asc ''[IMAGE_PROMPT: y]''"

definition raw_nested :: jsstring where
  "raw_nested = asc ''[IMAGE_PROMPT: a [IMAGE_PROMPT: b] and [IMAGE_PROMPT: b]''"

text \<open>Readings of the effects: the prompts of the calls of \<open>generateBlogImage\<close>, the records
  written into the store, and the keywords for which stage 1 was sent.\<close>

fun image_requests :: "event list \<Rightarrow> jsstring list" where
  "image_requests [] = []"
| "image_requests (CallGenerateBlogImage p # es) = p # image_requests es"
| "image_requests (e # es) = image_requests es"

fun stored_items :: "event list \<Rightarrow> HistoryItem list" where
  "stored_items [] = []"
| "stored_items (StorePut item # es) = item # stored_items es"
| "stored_items (e # es) = stored_items es"

fun started_keywords :: "event list \<Rightarrow> jsstring list" where
  "started_keywords [] = []"
| "started_keywords (SendMessage (Step1 kw lang) # es) = kw # started_keywords es"
| "started_keywords (e # es) = started_keywords es"

text \<open>The names of a placeholder, in any letter case: that of the featured image, and those
  of an illustration.\<close>

definition featured_name :: "jsstring \<Rightarrow> bool" where
  "featured_name name = list_all2 ci_match (asc ''FEATURED_IMAGE_PROMPT'') name"

definition illustration_name :: "jsstring \<Rightarrow> bool" where
  "illustration_name name =
     (list_all2 ci_match (asc ''IMAGE_PROMPT'') name \<or> list_all2 ci_match legacyName name)"

text \<open>A matcher that consumes a non-empty prefix of the text whenever it matches.\<close>

definition consuming :: "(jsstring \<Rightarrow> ('c \<times> jsstring) option) \<Rightarrow> bool" where
  "consuming m = (\<forall>s c rest. m s = Some (c, rest) \<longrightarrow> (\<exists>t. t \<noteq> [] \<and> s = t @ rest))"

text \<open>A matched text that has the name of the featured image.\<close>

definition featured_placeholder :: "jsstring \<Rightarrow> bool" where
  "featured_placeholder tag = ci_prefix (asc ''[FEATURED_IMAGE_PROMPT:'') tag"

definition raw_mixed_case :: jsstring where
  "raw_mixed_case = asc ''[featured_image_prompt:x] and [Image_Prompt:  y z]''"

section \<open>Searching and cutting strings\<close>

lemma indexOf_Some_iff:
  "indexOf s pat = Some i \<longleftrightarrow>
     i \<le> length s \<and> prefix pat (drop i s) \<and> (\<forall>j<i. \<not> prefix pat (drop j s))"
proof (induction s arbitrary: i)
  case Nil
  show ?case by auto
next
  case (Cons c cs)
  show ?case
  proof (cases "prefix pat (c # cs)")
    case True
    then show ?thesis by (cases i) auto
  next
    case False
    show ?thesis
    proof (cases i)
      case 0
      with False show ?thesis by simp
    next
      case (Suc k)
      have "(\<forall>j<Suc k. \<not> prefix pat (drop j (c # cs))) \<longleftrightarrow> (\<forall>j<k. \<not> prefix pat (drop j cs))"
        using False by (auto simp: less_Suc_eq_0_disj)
      with False Suc Cons.IH [of k] show ?thesis by auto
    qed
  qed
qed

lemma indexOf_None_iff:
  "indexOf s pat = None \<longleftrightarrow> (\<forall>j\<le>length s. \<not> prefix pat (drop j s))"
proof (induction s)
  case Nil
  show ?case by auto
next
  case (Cons c cs)
  have "(\<forall>j\<le>Suc (length cs). \<not> prefix pat (drop j (c # cs)))
        \<longleftrightarrow> \<not> prefix pat (c # cs) \<and> (\<forall>j\<le>length cs. \<not> prefix pat (drop j cs))"
    (is "?L \<longleftrightarrow> ?R")
  proof
    assume l: ?L
    have "\<not> prefix pat (c # cs)" using l [rule_format, of 0] by simp
    moreover have "\<not> prefix pat (drop j cs)" if "j \<le> length cs" for j
      using l [rule_format, of "Suc j"] that by simp
    ultimately show ?R by blast
  next
    assume r: ?R
    show ?L
    proof (intro allI impI)
      fix j assume "j \<le> Suc (length cs)"
      then show "\<not> prefix pat (drop j (c # cs))" using r by (cases j) auto
    qed
  qed
  with Cons.IH show ?case by auto
qed

lemma prefix_unit_drop: "prefix [c] (drop j s) \<longleftrightarrow> j < length s \<and> s ! j = c"
proof (cases "j < length s")
  case True
  then have "drop j s = s ! j # drop (Suc j) s" by (simp add: Cons_nth_drop_Suc)
  then show ?thesis using True by auto
next
  case False
  then show ?thesis by simp
qed

lemma indexOf_decompose:
  assumes "indexOf s pat = Some i"
  shows "s = take i s @ pat @ drop (i + length pat) s"
proof -
  from assms have "prefix pat (drop i s)" by (simp add: indexOf_Some_iff)
  then obtain zs where zs: "drop i s = pat @ zs" by (auto simp: prefix_def)
  have "drop (i + length pat) s = drop (length pat) (drop i s)" by (simp add: add.commute)
  also have "\<dots> = zs" by (simp add: zs)
  finally have "drop (i + length pat) s = zs" .
  moreover have "s = take i s @ drop i s" by simp
  ultimately show ?thesis using zs by simp
qed

lemma js_split_nonempty: "sep \<noteq> [] \<Longrightarrow> js_split s sep \<noteq> []"
  by (subst js_split.simps) (simp split: option.splits)

lemma js_join_Cons: "xs \<noteq> [] \<Longrightarrow> js_join (x # xs) sep = x @ sep @ js_join xs sep"
  by (cases xs) auto

text \<open>Cutting at a separator and joining with it gives the text back.\<close>

lemma js_join_js_split: "sep \<noteq> [] \<Longrightarrow> js_join (js_split s sep) sep = s"
proof (induction s sep rule: js_split.induct)
  case (1 s sep)
  show ?case
  proof (cases "indexOf s sep")
    case None
    with 1 show ?thesis by (subst js_split.simps) simp
  next
    case (Some i)
    have "js_join (js_split s sep) sep
            = take i s @ sep @ js_join (js_split (drop (i + length sep) s) sep) sep"
      using "1.prems" Some
      by (subst js_split.simps) (simp add: js_join_Cons js_split_nonempty)
    also have "\<dots> = take i s @ sep @ drop (i + length sep) s"
      using "1.IH" [OF "1.prems" Some] "1.prems" by simp
    also have "\<dots> = s" using indexOf_decompose [OF Some] by simp
    finally show ?thesis .
  qed
qed

text \<open>The pieces cut at a one-unit separator do not contain it.\<close>

lemma js_split_unit_free: "l \<in> set (js_split s [c]) \<Longrightarrow> c \<notin> set l"
proof (induction s "[c]" arbitrary: l rule: js_split.induct)
  case (1 s)
  show ?case
  proof (cases "indexOf s [c]")
    case None
    have "s ! j \<noteq> c" if "j < length s" for j
    proof -
      have "\<not> prefix [c] (drop j s)"
        using None that unfolding indexOf_None_iff by (simp add: less_imp_le)
      then show ?thesis using that unfolding prefix_unit_drop by simp
    qed
    then have "c \<notin> set s" unfolding in_set_conv_nth by blast
    moreover have "l = s" using "1.prems" None by (subst (asm) js_split.simps) simp
    ultimately show ?thesis by simp
  next
    case (Some i)
    then have no: "\<forall>j<i. \<not> prefix [c] (drop j s)" and le: "i \<le> length s"
      unfolding indexOf_Some_iff by blast+
    have "c \<notin> set (take i s)"
    proof
      assume "c \<in> set (take i s)"
      then obtain j where j: "j < length (take i s)" "take i s ! j = c"
        by (auto simp: in_set_conv_nth)
      then have "j < i" "j < length s" "s ! j = c" using le by auto
      then have "prefix [c] (drop j s)" unfolding prefix_unit_drop by simp
      with no \<open>j < i\<close> show False by blast
    qed
    moreover have "l = take i s \<or> l \<in> set (js_split (drop (i + length [c]) s) [c])"
      using "1.prems" Some by (subst (asm) js_split.simps) auto
    ultimately show ?thesis using "1.hyps" [OF _ Some] by auto
  qed
qed

text \<open>\<open>trim\<close> removes white space and line terminators at both ends and nothing else.\<close>

lemma rev_split: "rev m = a @ b \<Longrightarrow> m = rev b @ rev a"
proof -
  assume "rev m = a @ b"
  then have "rev (rev m) = rev (a @ b)" by (rule arg_cong)
  then show ?thesis by simp
qed

lemma trim_suffix: "dropWhile is_space l = trim l @ rev (takeWhile is_space (rev (dropWhile is_space l)))"
proof -
  define m where "m = dropWhile is_space l"
  have "rev m = takeWhile is_space (rev m) @ dropWhile is_space (rev m)" by simp
  then have "m = rev (dropWhile is_space (rev m)) @ rev (takeWhile is_space (rev m))"
    by (rule rev_split)
  then show ?thesis by (simp add: trim_def m_def)
qed

lemma trim_decompose:
  "\<exists>a b. l = a @ trim l @ b \<and> (\<forall>c\<in>set a. is_space c) \<and> (\<forall>c\<in>set b. is_space c)"
proof (intro exI conjI)
  show "l = takeWhile is_space l @ trim l @ rev (takeWhile is_space (rev (dropWhile is_space l)))"
    using trim_suffix [of l] by (metis takeWhile_dropWhile_id)
  show "\<forall>c\<in>set (takeWhile is_space l). is_space c" by (auto dest: set_takeWhileD)
  show "\<forall>c\<in>set (rev (takeWhile is_space (rev (dropWhile is_space l)))). is_space c"
    by (auto dest: set_takeWhileD)
qed

lemma trim_ends:
  assumes "trim l \<noteq> []"
  shows "\<not> is_space (hd (trim l)) \<and> \<not> is_space (last (trim l))"
proof -
  define m where "m = dropWhile is_space l"
  have t: "trim l = rev (dropWhile is_space (rev m))" by (simp add: trim_def m_def)
  with assms have ne: "dropWhile is_space (rev m) \<noteq> []" by simp
  then have "\<not> is_space (hd (dropWhile is_space (rev m)))" by (rule hd_dropWhile)
  then have l: "\<not> is_space (last (trim l))" using ne by (simp add: t last_rev)
  have "m \<noteq> []" using ne by auto
  then have hm: "\<not> is_space (hd m)" unfolding m_def by (rule hd_dropWhile)
  have "m = trim l @ rev (takeWhile is_space (rev m))"
    unfolding m_def by (rule trim_suffix)
  then have "hd m = hd (trim l @ rev (takeWhile is_space (rev m)))" by simp
  also have "\<dots> = hd (trim l)" using assms by simp
  finally show ?thesis using hm l by simp
qed

lemma trim_empty_iff: "trim l = [] \<longleftrightarrow> (\<forall>c\<in>set l. is_space c)"
proof
  assume "trim l = []"
  then have a: "\<forall>x\<in>set (dropWhile is_space l). is_space x"
    by (simp add: trim_def dropWhile_eq_Nil_conv)
  have "dropWhile is_space l = []"
  proof (rule ccontr)
    assume ne: "dropWhile is_space l \<noteq> []"
    then have "\<not> is_space (hd (dropWhile is_space l))" by (rule hd_dropWhile)
    moreover have "hd (dropWhile is_space l) \<in> set (dropWhile is_space l)" using ne by simp
    ultimately show False using a by blast
  qed
  then show "\<forall>c\<in>set l. is_space c" unfolding dropWhile_eq_Nil_conv .
next
  assume "\<forall>c\<in>set l. is_space c"
  then have d: "dropWhile is_space l = []" unfolding dropWhile_eq_Nil_conv .
  show "trim l = []" unfolding trim_def d by simp
qed

section \<open>The image retry policy\<close>

lemma map_upt_Suc_shift: "map f [0..<Suc k] = f 0 # map (\<lambda>i. f (Suc i)) [0..<k]"
  by (simp add: upt_conv_Cons map_Suc_upt [symmetric] del: upt_Suc)

lemma takeWhile_upt_Suc_shift:
  "takeWhile P [0..<Suc d] =
     (if P 0 then 0 # map Suc (takeWhile (\<lambda>i. P (Suc i)) [0..<d]) else [])"
  by (simp add: upt_conv_Cons map_Suc_upt [symmetric] takeWhile_map comp_def del: upt_Suc)

lemma upt_0_4: "[0..<4] = [0, 1, 2, Suc 2]"
  by (simp add: upt_rec)

text \<open>\<open>includes\<close> finds a string exactly when it occurs somewhere in the text.\<close>

lemma js_includes_iff_sublist: "js_includes s pat \<longleftrightarrow> sublist pat s"
proof
  assume "js_includes s pat"
  then obtain i where "indexOf s pat = Some i" by (auto simp: js_includes_def)
  then have "prefix pat (drop i s)" by (simp add: indexOf_Some_iff)
  then obtain v where "drop i s = pat @ v" by (auto simp: prefix_def)
  then have "s = take i s @ pat @ v" by (metis append_take_drop_id)
  then show "sublist pat s" unfolding sublist_def by blast
next
  assume "sublist pat s"
  then obtain u v where s: "s = u @ pat @ v" unfolding sublist_def by blast
  have "length u \<le> length s" "prefix pat (drop (length u) s)" by (simp_all add: s)
  then have "indexOf s pat \<noteq> None" unfolding indexOf_None_iff by blast
  then show "js_includes s pat" by (auto simp: js_includes_def)
qed

text \<open>What the wrapper tests on a thrown error is the signal of the specification.\<close>

lemma rate_limit_signal_iff:
  "rate_limit_signal reply \<longleftrightarrow> (case reply of ImageThrows e \<Rightarrow> isRateLimit e | ImageParts parts \<Rightarrow> False)"
proof -
  have "sublist (asc ''429'') m \<Longrightarrow> m \<noteq> []" for m :: jsstring by (auto simp: asc_def)
  moreover have "sublist (asc ''quota'') m \<Longrightarrow> m \<noteq> []" for m :: jsstring by (auto simp: asc_def)
  ultimately show ?thesis
    by (auto simp: rate_limit_signal_def isRateLimit_def js_includes_iff_sublist
             split: image_response.splits)
qed

text \<open>The loop from attempt \<open>a\<close> on, with \<open>d\<close> retries left.\<close>

lemma generateBlogImage_loop_from:
  assumes "a + d = 4"
  shows "generateBlogImage_loop env p a w =
     (let n = image_calls w;
          k = length (takeWhile (\<lambda>i. rate_limit_signal (image_api env (n + i) (finalPrompt p))) [0..<d])
      in (Inr (reply_value env (image_api env (n + k) (finalPrompt p))),
          w\<lparr>image_calls := n + k + 1,
            trace := trace w
              @ concat (map (\<lambda>i. [GenerateContent (finalPrompt p), Sleep (5000 * 2 ^ (a + i))]) [0..<k])
              @ [GenerateContent (finalPrompt p)]\<rparr>))"
  using assms
proof (induction d arbitrary: a w)
  case 0
  then have a: "a = 4" by simp
  show ?case
    unfolding a
    by (subst generateBlogImage_loop.simps)
       (auto simp: maxRetries_def emit_def reply_value_def Let_def
             split: image_response.splits option.splits)
next
  case (Suc d)
  then have a: "a < 4" "Suc a + d = 4" by simp_all
  note IH = Suc.IH [OF a(2)]
  show ?case
  proof (cases "rate_limit_signal (image_api env (image_calls w) (finalPrompt p))")
    case False
    then show ?thesis using a(1)
      by (subst generateBlogImage_loop.simps)
         (auto simp: maxRetries_def emit_def reply_value_def rate_limit_signal_iff Let_def
                     takeWhile_upt_Suc_shift
               simp del: upt_Suc split: image_response.splits option.splits)
  next
    case True
    then obtain e where e: "image_api env (image_calls w) (finalPrompt p) = ImageThrows e"
        "isRateLimit e"
      by (auto simp: rate_limit_signal_iff split: image_response.splits)
    show ?thesis using a(1) True e
      apply (subst generateBlogImage_loop.simps)
      apply (simp add: maxRetries_def Let_def IH takeWhile_upt_Suc_shift map_upt_Suc_shift
                  del: upt_Suc)
      apply (simp add: emit_def)
      done
  qed
qed

lemma generateBlogImage_eq:
  "generateBlogImage env p w =
     (let n = image_calls w;
          k = length (takeWhile (\<lambda>i. rate_limit_signal (image_api env (n + i) (finalPrompt p))) [0..<4])
      in (Inr (reply_value env (image_api env (n + k) (finalPrompt p))),
          w\<lparr>image_calls := n + k + 1,
            trace := trace w @ [CallGenerateBlogImage p]
              @ concat (map (\<lambda>i. [GenerateContent (finalPrompt p), Sleep (5000 * 2 ^ i)]) [0..<k])
              @ [GenerateContent (finalPrompt p)]\<rparr>))"
  unfolding generateBlogImage_def
  by (simp add: generateBlogImage_loop_from [where a = 0 and d = 4] emit_def Let_def)

text \<open>
  Claim C3.  The rate-limit signal is a thrown error whose status or code is 429 or whose
  message contains \<open>429\<close> or \<open>quota\<close>.  For every prompt and every sequence of replies of
  the image model, let \<open>k\<close> be the number of replies with the signal before the first reply
  without it, counted among the first four attempts.  The wrapper makes \<open>k + 1\<close> attempts,
  so at most five; after the attempt number \<open>i + 1\<close> (for \<open>i < k\<close>) it sleeps
  \<open>5000 * 2 ^ i\<close> milliseconds, which is 5, 10, 20 and 40 seconds; it returns what the
  last attempt's reply gives, which is null for every thrown error; and the result is
  always a returned value, never an error passed on to the caller.  In particular: when
  the first attempt throws an error that has neither status nor code 429 and whose message
  contains neither \<open>429\<close> nor \<open>quota\<close>, the wrapper returns null after this one attempt,
  without sleeping; and when the first five attempts all throw errors with the signal, it
  returns null after five attempts and sleeps of 5000, 10000, 20000 and 40000
  milliseconds.
\<close>

theorem generateBlogImage_retry_policy:
  "generateBlogImage env p w =
     (let n = image_calls w;
          k = length (takeWhile (\<lambda>i. rate_limit_signal (image_api env (n + i) (finalPrompt p))) [0..<4])
      in (Inr (reply_value env (image_api env (n + k) (finalPrompt p))),
          w\<lparr>image_calls := n + k + 1,
            trace := trace w @ [CallGenerateBlogImage p]
              @ concat (map (\<lambda>i. [GenerateContent (finalPrompt p), Sleep (5000 * 2 ^ i)]) [0..<k])
              @ [GenerateContent (finalPrompt p)]\<rparr>))
   \<and> image_calls (snd (generateBlogImage env p w)) \<le> image_calls w + 5
   \<and> (\<forall>e. fst (generateBlogImage env p w) \<noteq> Inl e)
   \<and> (\<forall>e. image_api env (image_calls w) (finalPrompt p) = ImageThrows e \<and>
          err_status e \<noteq> Some 429 \<and> err_code e \<noteq> Some 429 \<and>
          \<not> sublist (asc ''429'') (err_message e) \<and> \<not> sublist (asc ''quota'') (err_message e) \<longrightarrow>
          generateBlogImage env p w =
            (Inr None, w\<lparr>image_calls := image_calls w + 1,
                         trace := trace w @ [CallGenerateBlogImage p, GenerateContent (finalPrompt p)]\<rparr>))
   \<and> ((\<forall>i<5. \<exists>e. image_api env (image_calls w + i) (finalPrompt p) = ImageThrows e \<and>
            (err_status e = Some 429 \<or> err_code e = Some 429 \<or>
             sublist (asc ''429'') (err_message e) \<or> sublist (asc ''quota'') (err_message e))) \<longrightarrow>
          generateBlogImage env p w =
            (Inr None,
             w\<lparr>image_calls := image_calls w + 5,
               trace := trace w @
                 [CallGenerateBlogImage p,
                  GenerateContent (finalPrompt p), Sleep 5000,
                  GenerateContent (finalPrompt p), Sleep 10000,
                  GenerateContent (finalPrompt p), Sleep 20000,
                  GenerateContent (finalPrompt p), Sleep 40000,
                  GenerateContent (finalPrompt p)]\<rparr>))"
proof -
  let ?rl = "\<lambda>i. rate_limit_signal (image_api env (image_calls w + i) (finalPrompt p))"
  let ?k = "length (takeWhile ?rl [0..<4])"
  have k: "?k \<le> 4"
    using length_takeWhile_le [of ?rl "[0..<4]"] by simp
  have 1: "image_calls (snd (generateBlogImage env p w)) \<le> image_calls w + 5"
    using k by (simp add: generateBlogImage_eq Let_def)
  have 2: "\<forall>e. fst (generateBlogImage env p w) \<noteq> Inl e"
    by (simp add: generateBlogImage_eq Let_def)
  have 3: "generateBlogImage env p w =
            (Inr None, w\<lparr>image_calls := image_calls w + 1,
                         trace := trace w @ [CallGenerateBlogImage p, GenerateContent (finalPrompt p)]\<rparr>)"
    if "image_api env (image_calls w) (finalPrompt p) = ImageThrows e"
       "err_status e \<noteq> Some 429" "err_code e \<noteq> Some 429"
       "\<not> sublist (asc ''429'') (err_message e)" "\<not> sublist (asc ''quota'') (err_message e)" for e
    using that
    by (simp add: generateBlogImage_eq Let_def upt_0_4 rate_limit_signal_def reply_value_def)
  have 4: "generateBlogImage env p w =
            (Inr None,
             w\<lparr>image_calls := image_calls w + 5,
               trace := trace w @
                 [CallGenerateBlogImage p,
                  GenerateContent (finalPrompt p), Sleep 5000,
                  GenerateContent (finalPrompt p), Sleep 10000,
                  GenerateContent (finalPrompt p), Sleep 20000,
                  GenerateContent (finalPrompt p), Sleep 40000,
                  GenerateContent (finalPrompt p)]\<rparr>)"
    if h: "\<forall>i<5. \<exists>e. image_api env (image_calls w + i) (finalPrompt p) = ImageThrows e \<and>
            (err_status e = Some 429 \<or> err_code e = Some 429 \<or>
             sublist (asc ''429'') (err_message e) \<or> sublist (asc ''quota'') (err_message e))"
  proof -
    have rl: "?rl i" if "i < 5" for i
      using h [rule_format, OF that] by (auto simp: rate_limit_signal_def)
    have r0: "?rl 0" "?rl 1" "?rl 2" "?rl (Suc 2)" by (rule rl, simp)+
    have "\<exists>e. image_api env (image_calls w + 4) (finalPrompt p) = ImageThrows e"
      using h [rule_format, of 4] by auto
    then obtain e where
      e: "image_api env (Suc (Suc (Suc (Suc (image_calls w))))) (finalPrompt p) = ImageThrows e"
      by (auto simp: numeral_eq_Suc)
    have tw: "takeWhile ?rl [0, 1, 2, Suc 2] = [0, 1, 2, Suc 2]"
      using r0 by simp
    show ?thesis
      unfolding generateBlogImage_eq Let_def upt_0_4 tw
      by (simp add: e reply_value_def)
  qed
  show ?thesis using 1 2 3 4 generateBlogImage_eq [of env p w] by blast
qed

theorem generateBlogImage_retry_policy_witness:
  "generateBlogImage env_always_rate_limited (asc ''a runner'') world0 =
     (Inr None,
      world0\<lparr>image_calls := 5,
        trace := [CallGenerateBlogImage (asc ''a runner''),
                  GenerateContent (finalPrompt (asc ''a runner'')), Sleep 5000,
                  GenerateContent (finalPrompt (asc ''a runner'')), Sleep 10000,
                  GenerateContent (finalPrompt (asc ''a runner'')), Sleep 20000,
                  GenerateContent (finalPrompt (asc ''a runner'')), Sleep 40000,
                  GenerateContent (finalPrompt (asc ''a runner''))]\<rparr>) \<and>
   generateBlogImage env_server_error (asc ''a runner'') world0 =
     (Inr None,
      world0\<lparr>image_calls := 1,
        trace := [CallGenerateBlogImage (asc ''a runner''),
                  GenerateContent (finalPrompt (asc ''a runner''))]\<rparr>) \<and>
   generateBlogImage env_limited_then_image (asc ''a runner'') world0 =
     (Inr (Some (asc ''data:image/png;base64,QUJD'')),
      world0\<lparr>image_calls := 4,
        trace := [CallGenerateBlogImage (asc ''a runner''),
                  GenerateContent (finalPrompt (asc ''a runner'')), Sleep 5000,
                  GenerateContent (finalPrompt (asc ''a runner'')), Sleep 10000,
                  GenerateContent (finalPrompt (asc ''a runner'')), Sleep 20000,
                  GenerateContent (finalPrompt (asc ''a runner''))]\<rparr>)"
proof -
  note t1 = generateBlogImage_retry_policy [of env_always_rate_limited "asc ''a runner''" world0]
  note t2 = generateBlogImage_retry_policy [of env_server_error "asc ''a runner''" world0]
  note t3 = generateBlogImage_retry_policy [of env_limited_then_image "asc ''a runner''" world0]
  have a: "image_api env_always_rate_limited = (\<lambda>n p. ImageThrows rate_limit_error)"
    by (simp add: env_always_rate_limited_def)
  have "\<forall>i<5. \<exists>e. image_api env_always_rate_limited (image_calls world0 + i)
                      (finalPrompt (asc ''a runner'')) = ImageThrows e \<and>
            (err_status e = Some 429 \<or> err_code e = Some 429 \<or>
             sublist (asc ''429'') (err_message e) \<or> sublist (asc ''quota'') (err_message e))"
    by (simp add: a rate_limit_error_def)
  with t1 have 1: "generateBlogImage env_always_rate_limited (asc ''a runner'') world0 =
     (Inr None,
      world0\<lparr>image_calls := image_calls world0 + 5,
        trace := trace world0 @ [CallGenerateBlogImage (asc ''a runner''),
                  GenerateContent (finalPrompt (asc ''a runner'')), Sleep 5000,
                  GenerateContent (finalPrompt (asc ''a runner'')), Sleep 10000,
                  GenerateContent (finalPrompt (asc ''a runner'')), Sleep 20000,
                  GenerateContent (finalPrompt (asc ''a runner'')), Sleep 40000,
                  GenerateContent (finalPrompt (asc ''a runner''))]\<rparr>)"
    by blast
  have b: "image_api env_server_error = (\<lambda>n p. ImageThrows server_error)"
    by (simp add: env_server_error_def)
  have n429: "\<not> sublist (asc ''429'') (err_message server_error)"
    unfolding js_includes_iff_sublist [symmetric]
    by (simp add: server_error_def js_includes_def asc_def)
  have nquota: "\<not> sublist (asc ''quota'') (err_message server_error)"
    unfolding js_includes_iff_sublist [symmetric]
    by (simp add: server_error_def js_includes_def asc_def)
  have "image_api env_server_error (image_calls world0) (finalPrompt (asc ''a runner''))
          = ImageThrows server_error \<and>
        err_status server_error \<noteq> Some 429 \<and> err_code server_error \<noteq> Some 429 \<and>
        \<not> sublist (asc ''429'') (err_message server_error) \<and>
        \<not> sublist (asc ''quota'') (err_message server_error)"
    using n429 nquota by (simp add: b) (simp add: server_error_def)
  with t2 have 2: "generateBlogImage env_server_error (asc ''a runner'') world0 =
     (Inr None,
      world0\<lparr>image_calls := image_calls world0 + 1,
        trace := trace world0 @ [CallGenerateBlogImage (asc ''a runner''),
                  GenerateContent (finalPrompt (asc ''a runner''))]\<rparr>)"
    by blast
  have q: "sublist (asc ''quota'') (err_message quota_error)"
    unfolding js_includes_iff_sublist [symmetric]
    by (simp add: quota_error_def js_includes_def asc_def)
  have m: "sublist (asc ''429'') (err_message message_429_error)"
    unfolding js_includes_iff_sublist [symmetric]
    by (simp add: message_429_error_def js_includes_def asc_def)
  have c: "rate_limit_signal (image_api env_limited_then_image n x) \<longleftrightarrow> n < 3" for x n
    using q m
    by (auto simp: env_limited_then_image_def rate_limit_signal_def code_429_error_def)
  have d: "image_api env_limited_then_image n x
             = ImageParts [None, Some (asc ''image/png'', asc ''QUJD'')]" if "3 \<le> n" for x n
    using that by (simp add: env_limited_then_image_def)
  have cj: "canvas_jpeg env_limited_then_image = (\<lambda>s. None)"
    by (simp add: env_limited_then_image_def)
  have w0: "image_calls world0 = 0" "trace world0 = []" by (simp_all add: world0_def)
  have png: "asc ''data:'' @ asc ''image/png'' @ asc '';base64,'' @ asc ''QUJD''
               = asc ''data:image/png;base64,QUJD''"
    by (simp add: asc_def)
  have 3: "generateBlogImage env_limited_then_image (asc ''a runner'') world0 =
     (Inr (Some (asc ''data:image/png;base64,QUJD'')),
      world0\<lparr>image_calls := 4,
        trace := [CallGenerateBlogImage (asc ''a runner''),
                  GenerateContent (finalPrompt (asc ''a runner'')), Sleep 5000,
                  GenerateContent (finalPrompt (asc ''a runner'')), Sleep 10000,
                  GenerateContent (finalPrompt (asc ''a runner'')), Sleep 20000,
                  GenerateContent (finalPrompt (asc ''a runner''))]\<rparr>)"
    unfolding t3 [THEN conjunct1]
    by (simp add: c d cj w0 png Let_def upt_0_4 reply_value_def compressBase64_def rawBase64_def)
  from 1 2 3 show ?thesis by (simp add: w0)
qed

section \<open>Effects of the orchestrator\<close>

lemma image_requests_append [simp]: "image_requests (a @ b) = image_requests a @ image_requests b"
  by (induction a rule: image_requests.induct) auto

lemma stored_items_append [simp]: "stored_items (a @ b) = stored_items a @ stored_items b"
  by (induction a rule: stored_items.induct) auto

lemma started_keywords_append [simp]: "started_keywords (a @ b) = started_keywords a @ started_keywords b"
  by (induction a rule: started_keywords.induct) auto

lemma retry_events_quiet [simp]:
  "image_requests (concat (map (\<lambda>i. [GenerateContent q, Sleep (f i)]) xs)) = []"
  "stored_items (concat (map (\<lambda>i. [GenerateContent q, Sleep (f i)]) xs)) = []"
  "started_keywords (concat (map (\<lambda>i. [GenerateContent q, Sleep (f i)]) xs)) = []"
  by (induction xs) auto

lemma await_simps [simp]:
  "wld (await r) = wld r" "app (await r) = app r" "renders (await r) = renders r @ [app r]"
  by (simp_all add: await_def)

lemma sleep_simps [simp]:
  "wld (sleep ms r) = emit (Sleep ms) (wld r)" "app (sleep ms r) = app r"
  "renders (sleep ms r) = renders r @ [app r]"
  by (simp_all add: sleep_def)

lemma emit_simps [simp]:
  "trace (emit ev w) = trace w @ [ev]" "store (emit ev w) = store w"
  "chatSession (emit ev w) = chatSession w" "text_calls (emit ev w) = text_calls w"
  "image_calls (emit ev w) = image_calls w" "clock_reads (emit ev w) = clock_reads w"
  "db_requests (emit ev w) = db_requests w"
  by (simp_all add: emit_def)

text \<open>The wrapper returns; it adds one call mark and nothing else that is read here.\<close>

lemma generateBlogImage_returns: "\<exists>v. fst (generateBlogImage env p w) = Inr v"
  by (simp add: generateBlogImage_eq Let_def)

lemma generateBlogImage_effects:
  "image_requests (trace (snd (generateBlogImage env p w))) = image_requests (trace w) @ [p]"
  "started_keywords (trace (snd (generateBlogImage env p w))) = started_keywords (trace w)"
  "stored_items (trace (snd (generateBlogImage env p w))) = stored_items (trace w)"
  by (simp_all add: generateBlogImage_eq Let_def)

lemma imageLoop_returns: "\<exists>fa. fst (imageLoop env n ms c fa0 r) = Inr fa"
proof (induction ms arbitrary: c fa0 r)
  case Nil
  show ?case by simp
next
  case (Cons m ms)
  obtain idx fullTag prompt where m: "m = (idx, fullTag, prompt)" by (cases m) auto
  obtain v w1 where g: "generateBlogImage env prompt (wld r) = (Inr v, w1)"
    using generateBlogImage_returns [of env prompt "wld r"]
    by (cases "generateBlogImage env prompt (wld r)") auto
  show ?case using Cons.IH by (simp add: m g Let_def)
qed

lemma imageLoop_effects:
  "image_requests (trace (wld (snd (imageLoop env n ms c fa0 r))))
     = image_requests (trace (wld r)) @ map (\<lambda>(idx, fullTag, prompt). prompt) ms
   \<and> started_keywords (trace (wld (snd (imageLoop env n ms c fa0 r)))) = started_keywords (trace (wld r))
   \<and> stored_items (trace (wld (snd (imageLoop env n ms c fa0 r)))) = stored_items (trace (wld r))"
proof (induction ms arbitrary: c fa0 r)
  case Nil
  show ?case by simp
next
  case (Cons m ms)
  obtain idx fullTag prompt where m: "m = (idx, fullTag, prompt)" by (cases m) auto
  obtain v w1 where g: "generateBlogImage env prompt (wld r) = (Inr v, w1)"
    using generateBlogImage_returns [of env prompt "wld r"]
    by (cases "generateBlogImage env prompt (wld r)") auto
  have e: "image_requests (trace w1) = image_requests (trace (wld r)) @ [prompt]"
      "started_keywords (trace w1) = started_keywords (trace (wld r))"
      "stored_items (trace w1) = stored_items (trace (wld r))"
    using generateBlogImage_effects [of env prompt "wld r"] g by simp_all
  show ?case using e by (simp add: m g Let_def Cons.IH)
qed

lemma resolveImages_returns: "\<exists>fa. fst (resolveImages env raw r) = Inr fa"
  by (simp add: resolveImages_def Let_def imageLoop_returns)

lemma resolveImages_effects:
  "image_requests (trace (wld (snd (resolveImages env raw r))))
     = image_requests (trace (wld r)) @ map (\<lambda>(idx, fullTag, prompt). prompt) (matchAll imageRegex raw)"
  "started_keywords (trace (wld (snd (resolveImages env raw r)))) = started_keywords (trace (wld r))"
  "stored_items (trace (wld (snd (resolveImages env raw r)))) = stored_items (trace (wld r))"
  by (simp_all add: resolveImages_def Let_def imageLoop_effects)

lemma executeStep1_started:
  "started_keywords (trace (snd (executeStep1 env kw lang w))) = started_keywords (trace w) @ [kw]"
  by (auto simp: executeStep1_def sendMessage_def initializeSession_def Let_def split: sum.splits)

lemma executeStep2_started:
  "started_keywords (trace (snd (executeStep2 env kw lang w))) = started_keywords (trace w)"
  by (auto simp: executeStep2_def sendMessage_def initializeSession_def Let_def split: sum.splits)

lemma executeStep3_started:
  "started_keywords (trace (snd (executeStep3 env lang w))) = started_keywords (trace w)"
  by (auto simp: executeStep3_def sendMessage_def Let_def split: sum.splits)

lemma executeStep4_started:
  "started_keywords (trace (snd (executeStep4 env kw lang w))) = started_keywords (trace w)"
  by (auto simp: executeStep4_def sendMessage_def Let_def split: sum.splits)

text \<open>
  Saving a record without id, request by request: \<open>n\<close> is the number of the request that
  opens the database and \<open>n + 1\<close> that of the put.  The record is stored exactly when both
  succeed; the history returned is read with the request after them.
\<close>

lemma saveHistoryItem_new:
  assumes "item_id item = []"
  shows "saveHistoryItem env item w =
     (let n = db_requests w; c = clock_reads w;
          stored = item\<lparr>item_id := int_toString (date_now env c) @ asc ''-'' @ random_suffix env c\<rparr>;
          opened = (db_reply env n = None);
          saved = (opened \<and> db_reply env (n + 1) = None);
          w' = w\<lparr>clock_reads := (if opened then c + 1 else c),
                 db_requests := (if opened then n + 3 else n + 2),
                 store := (if saved then stored # filter (\<lambda>i. item_id i \<noteq> item_id stored) (store w)
                           else store w),
                 trace := trace w @ CallSaveHistoryItem item # (if saved then [StorePut stored] else [])\<rparr>
      in (if db_reply env (if opened then n + 2 else n + 1) = None
          then sort_key (\<lambda>i. - timestamp i) (sort_key item_id (store w'))
          else [],
          w'))"
  using assms
  by (auto simp: saveHistoryItem_def openDB_def storePut_def getHistory_def emit_def Let_def
           split: option.splits)

lemma saveHistoryItem_started:
  "started_keywords (trace (snd (saveHistoryItem env item w))) = started_keywords (trace w)"
  by (auto simp: saveHistoryItem_def openDB_def storePut_def getHistory_def emit_def Let_def
           split: option.splits prod.splits)

lemma saveAndSetHistory_started:
  "started_keywords (trace (wld (saveAndSetHistory env item r))) = started_keywords (trace (wld r))"
  using saveHistoryItem_started [of env item "wld r"]
  by (auto simp: saveAndSetHistory_def Let_def split: prod.splits)

lemma tryBlock_started:
  "started_keywords (trace (wld (snd (tryBlock env kw lang r))))
     = started_keywords (trace (wld r)) @ [kw]"
proof -
  have s: "started_keywords (trace w') = started_keywords (trace w) @ [kw]"
    if "executeStep1 env kw lang w = (res, w')" for w w' res
    using executeStep1_started [of env kw lang w] that by simp
  have s2: "started_keywords (trace w') = started_keywords (trace w)"
    if "executeStep2 env kw lang w = (res, w')" for w w' res
    using executeStep2_started [of env kw lang w] that by simp
  have s3: "started_keywords (trace w') = started_keywords (trace w)"
    if "executeStep3 env lang w = (res, w')" for w w' res
    using executeStep3_started [of env lang w] that by simp
  have s4: "started_keywords (trace w') = started_keywords (trace w)"
    if "executeStep4 env kw lang w = (res, w')" for w w' res
    using executeStep4_started [of env kw lang w] that by simp
  have s5: "started_keywords (trace (wld r')) = started_keywords (trace (wld r0))"
    if "resolveImages env raw r0 = (res, r')" for raw r0 r' res
    using resolveImages_effects(2) [of env raw r0] that by simp
  show ?thesis
    unfolding tryBlock_def Let_def
    by (auto split: prod.splits sum.splits
             simp: saveAndSetHistory_started readClock_def
             dest!: s s2 s3 s4 s5)
qed

text \<open>The \<open>catch\<close> block, effect by effect.\<close>

lemma catchBlock_effects:
  "(let c = clock_reads (wld r); n = db_requests (wld r);
        errorItem = \<lparr>item_id = [], keyword = kw @ asc '' (FAILED)'',
                     content = asc ''Error processing: '' @ error_toString error,
                     timestamp = date_now env c, language = Some lang\<rparr>;
        stored = errorItem\<lparr>item_id := int_toString (date_now env (c + 1)) @ asc ''-''
                                        @ random_suffix env (c + 1)\<rparr>;
        opened = (db_reply env n = None);
        saved = (opened \<and> db_reply env (n + 1) = None);
        r' = catchBlock env kw lang error r
    in trace (wld r')
         = trace (wld r) @ CallSaveHistoryItem errorItem
             # (if saved then [StorePut stored] else []) @ [Sleep 2000] \<and>
       store (wld r')
         = (if saved then stored # filter (\<lambda>i. item_id i \<noteq> item_id stored) (store (wld r))
            else store (wld r)) \<and>
       history (app r')
         = (if db_reply env (if opened then n + 2 else n + 1) = None
            then sort_key (\<lambda>i. - timestamp i) (sort_key item_id (store (wld r')))
            else []))"
  by (auto simp: catchBlock_def readClock_def saveAndSetHistory_def saveHistoryItem_new Let_def
           split: prod.splits)

lemma catchBlock_started:
  "started_keywords (trace (wld (catchBlock env kw lang error r))) = started_keywords (trace (wld r))"
  using catchBlock_effects [of r kw error env lang] by (simp add: Let_def)

lemma beginKeyword_trace [simp]: "trace (wld (beginKeyword tc kw nextQueue r)) = trace (wld r)"
  by (simp add: beginKeyword_def resetSession_def)

lemma processNextKeyword_started:
  "started_keywords (trace (wld (processNextKeyword env tc q lang r)))
     = started_keywords (trace (wld r)) @ q"
proof (induction q arbitrary: r)
  case Nil
  show ?case by simp
next
  case (Cons kw nextQueue)
  define r0 where "r0 = beginKeyword tc kw nextQueue r"
  obtain res r1 where t: "tryBlock env kw lang r0 = (res, r1)"
    by (cases "tryBlock env kw lang r0")
  have t1: "started_keywords (trace (wld r1)) = started_keywords (trace (wld r)) @ [kw]"
    using tryBlock_started [of env kw lang r0] t by (simp add: r0_def)
  show ?case
    using t t1 by (cases res) (simp_all add: r0_def [symmetric] Cons.IH catchBlock_started)
qed


section \<open>The bulk run\<close>

lemmas char_class_defs = is_space_def is_white_space_def is_line_terminator_def

lemmas orchestrator_defs =
  tryBlock_def catchBlock_def beginKeyword_def executeStep1_def executeStep2_def executeStep3_def
  executeStep4_def sendMessage_def resolveImages_def saveAndSetHistory_def saveHistoryItem_def
  readClock_def resetSession_def initializeSession_def appendSources_def getHistory_def
  openDB_def storePut_def error_toString_def int_toString_def Let_def

lemma keywords_A_B: "bulkKeywords input_A_B = [asc ''A'', asc ''B'']"
  by (simp add: bulkKeywords_def input_A_B_def js_split.simps trim_def asc_def char_class_defs)

lemma keywords_A: "bulkKeywords input_A = [asc ''A'']"
  by (simp add: bulkKeywords_def input_A_def js_split.simps trim_def asc_def char_class_defs)

lemma asc_A_B: "asc ''A'' \<noteq> asc ''B''"
  by (simp add: asc_def)

lemma matchAll_text: "matchAll imageRegex (asc ''text'') = []"
  by (simp add: matchAll_def matchAllFrom.simps imageRegex_def lits_def asc_def)

lemma decimal_1000: "decimal 1000 = asc ''1000''" "decimal 1001 = asc ''1001''"
  "decimal 1002 = asc ''1002''" "decimal 1003 = asc ''1003''"
  by (simp_all add: decimal.simps asc_def)

text \<open>
  Claim C1, evaluated where it fails.  The bulk input is the two lines \<open>A\<close> and \<open>B\<close>, entered
  in the freshly mounted component; the text stages answer for \<open>A\<close>, and stage 1 throws for
  \<open>B\<close>.  The run reaches \<open>COMPLETE\<close> with \<open>totalCount = 2\<close>, but \<open>completedCount\<close> is -1, not
  2: the \<open>catch\<close> block does not count the failed keyword, and the count set at the start of
  each keyword is computed from the \<open>totalCount\<close> of the render in which the run was
  started, which is 0.  Even with 2 for that captured \<open>totalCount\<close> the count ends at 1.
\<close>

theorem completedCount_after_failed_keyword:
  "status (app (handleStartBulk env_B_fails (fresh_run input_A_B))) = COMPLETE \<and>
   totalCount (app (handleStartBulk env_B_fails (fresh_run input_A_B))) = 2 \<and>
   completedCount (app (handleStartBulk env_B_fails (fresh_run input_A_B))) = - 1 \<and>
   status (app (processNextKeyword env_B_fails 2 [asc ''A'', asc ''B''] Vi (fresh_run input_A_B))) = COMPLETE \<and>
   completedCount (app (processNextKeyword env_B_fails 2 [asc ''A'', asc ''B''] Vi (fresh_run input_A_B))) = 1"
proof -
  have 1: "status (app (handleStartBulk env_B_fails (fresh_run input_A_B))) = COMPLETE \<and>
   totalCount (app (handleStartBulk env_B_fails (fresh_run input_A_B))) = 2 \<and>
   completedCount (app (handleStartBulk env_B_fails (fresh_run input_A_B))) = - 1"
    apply (simp add: handleStartBulk_def fresh_run_def fresh_app_def world0_def keywords_A_B)
    apply (simp add: orchestrator_defs env_B_fails_def matchAll_text)
    done
  have 2: "status (app (processNextKeyword env_B_fails 2 [asc ''A'', asc ''B''] Vi (fresh_run input_A_B))) = COMPLETE \<and>
   completedCount (app (processNextKeyword env_B_fails 2 [asc ''A'', asc ''B''] Vi (fresh_run input_A_B))) = 1"
    apply (simp add: fresh_run_def fresh_app_def world0_def)
    apply (simp add: orchestrator_defs env_B_fails_def matchAll_text)
    done
  from 1 2 show ?thesis by blast
qed

text \<open>
  Claim C5, evaluated where it fails.  The bulk input is the single line \<open>A\<close>, entered in the
  freshly mounted component, and every stage succeeds.  The states rendered at the six
  suspension points of the run have (completed, remaining, total) equal to (-1, 0, 1) five
  times and then (0, 0, 1), and the final state has (0, 0, 1): completed plus remaining is
  never the total.  With 1 for the captured \<open>totalCount\<close> the states are (0, 0, 1) five
  times, while the keyword is in progress, and then (1, 0, 1).
\<close>

theorem completed_plus_remaining_during_run:
  "map (\<lambda>a. (completedCount a, length (queue a), totalCount a))
       (renders (handleStartBulk env_B_fails (fresh_run input_A)))
     = [(- 1, 0, 1), (- 1, 0, 1), (- 1, 0, 1), (- 1, 0, 1), (- 1, 0, 1), (0, 0, 1)] \<and>
   (\<lambda>a. (completedCount a, length (queue a), totalCount a))
       (app (handleStartBulk env_B_fails (fresh_run input_A))) = (0, 0, 1) \<and>
   map (\<lambda>a. (completedCount a, length (queue a), totalCount a))
       (renders (processNextKeyword env_B_fails 1 [asc ''A''] Vi
                   (fresh_run input_A\<lparr>app := fresh_app\<lparr>queue := [asc ''A''], totalCount := 1\<rparr>\<rparr>)))
     = [(0, 0, 1), (0, 0, 1), (0, 0, 1), (0, 0, 1), (0, 0, 1), (1, 0, 1)]"
proof -
  have 1: "map (\<lambda>a. (completedCount a, length (queue a), totalCount a))
       (renders (handleStartBulk env_B_fails (fresh_run input_A)))
     = [(- 1, 0, 1), (- 1, 0, 1), (- 1, 0, 1), (- 1, 0, 1), (- 1, 0, 1), (0, 0, 1)] \<and>
   (\<lambda>a. (completedCount a, length (queue a), totalCount a))
       (app (handleStartBulk env_B_fails (fresh_run input_A))) = (0, 0, 1)"
    apply (simp add: handleStartBulk_def fresh_run_def fresh_app_def world0_def keywords_A)
    apply (simp add: orchestrator_defs env_B_fails_def matchAll_text asc_A_B)
    done
  have 2: "map (\<lambda>a. (completedCount a, length (queue a), totalCount a))
       (renders (processNextKeyword env_B_fails 1 [asc ''A''] Vi
                   (fresh_run input_A\<lparr>app := fresh_app\<lparr>queue := [asc ''A''], totalCount := 1\<rparr>\<rparr>)))
     = [(0, 0, 1), (0, 0, 1), (0, 0, 1), (0, 0, 1), (0, 0, 1), (1, 0, 1)]"
    apply (simp add: fresh_run_def fresh_app_def world0_def)
    apply (simp add: orchestrator_defs env_B_fails_def matchAll_text asc_A_B)
    done
  from 1 2 show ?thesis by blast
qed









text \<open>
  Claim C10.  Stage 1 is sent, in order, for exactly the keywords of the bulk input, which
  are the lines of the input (the pieces between line feeds: joined with line feeds they
  give the input back, and none contains a line feed), each trimmed (only white space and
  line terminators are cut off, at the two ends), without the empty ones.  So every
  keyword is non-empty, and begins and ends with a code unit that is no white space.  When
  every line consists of white space only, the click changes nothing: no run is started.
\<close>

theorem keywords_are_trimmed_nonempty_lines:
  "started_keywords (trace (wld (handleStartBulk env r)))
     = started_keywords (trace (wld r)) @ bulkKeywords (bulkInput (app r)) \<and>
   bulkKeywords input = filter (\<lambda>k. k \<noteq> []) (map trim (js_split input [10])) \<and>
   js_join (js_split input [10]) [10] = input \<and>
   (\<forall>l\<in>set (js_split input [10]). 10 \<notin> set l) \<and>
   (\<forall>l. \<exists>a b. l = a @ trim l @ b \<and> (\<forall>c\<in>set a. is_space c) \<and> (\<forall>c\<in>set b. is_space c)) \<and>
   (\<forall>k\<in>set (bulkKeywords input). k \<noteq> [] \<and> \<not> is_space (hd k) \<and> \<not> is_space (last k)) \<and>
   ((\<forall>l\<in>set (js_split (bulkInput (app r)) [10]). \<forall>c\<in>set l. is_space c) \<longrightarrow>
      handleStartBulk env r = r)"
proof -
  have 1: "started_keywords (trace (wld (handleStartBulk env r)))
     = started_keywords (trace (wld r)) @ bulkKeywords (bulkInput (app r))"
    by (simp add: handleStartBulk_def Let_def processNextKeyword_started)
  have 2: "bulkKeywords i = filter (\<lambda>k. k \<noteq> []) (map trim (js_split i [10]))" for i
    by (simp add: bulkKeywords_def)
  have 3: "js_join (js_split input [10]) [10] = input" by (simp add: js_join_js_split)
  have 4: "\<forall>l\<in>set (js_split input [10]). 10 \<notin> set l"
  proof
    fix l assume "l \<in> set (js_split input [10])"
    then show "10 \<notin> set l" by (rule js_split_unit_free)
  qed
  have 5: "\<forall>l. \<exists>a b. l = a @ trim l @ b \<and> (\<forall>c\<in>set a. is_space c) \<and> (\<forall>c\<in>set b. is_space c)"
  proof
    fix l show "\<exists>a b. l = a @ trim l @ b \<and> (\<forall>c\<in>set a. is_space c) \<and> (\<forall>c\<in>set b. is_space c)"
      by (rule trim_decompose)
  qed
  have 6: "\<forall>k\<in>set (bulkKeywords input). k \<noteq> [] \<and> \<not> is_space (hd k) \<and> \<not> is_space (last k)"
  proof
    fix k assume "k \<in> set (bulkKeywords input)"
    then obtain l where k: "k = trim l" "trim l \<noteq> []" unfolding 2 [of input] by auto
    from trim_ends [OF k(2)] k show "k \<noteq> [] \<and> \<not> is_space (hd k) \<and> \<not> is_space (last k)"
      by simp
  qed
  have 7: "handleStartBulk env r = r"
    if a: "\<forall>l\<in>set (js_split (bulkInput (app r)) [10]). \<forall>c\<in>set l. is_space c"
  proof -
    have "trim l = []" if "l \<in> set (js_split (bulkInput (app r)) [10])" for l
      using a that unfolding trim_empty_iff by blast
    then have "bulkKeywords (bulkInput (app r)) = []"
      unfolding 2 [of "bulkInput (app r)"] filter_empty_conv by auto
    then show ?thesis by (simp add: handleStartBulk_def)
  qed
  from 1 2 [of input] 3 4 5 6 7 show ?thesis by blast
qed

theorem keywords_are_trimmed_nonempty_lines_witness:
  "started_keywords (trace (wld (handleStartBulk env_B_fails (fresh_run input_A_B))))
     = [asc ''A'', asc ''B''] \<and>
   js_split input_blank [10] = [[32, 32], [9, 13]] \<and>
   handleStartBulk env_B_fails (fresh_run input_blank) = fresh_run input_blank"
proof -
  have b: "js_split input_blank [10] = [[32, 32], [9, 13]]"
    by (simp add: input_blank_def js_split.simps asc_def)
  have h0: "\<forall>l\<in>set (js_split input_blank [10]). \<forall>c\<in>set l. is_space c"
    unfolding b by (simp add: char_class_defs)
  have bi: "bulkInput (app (fresh_run input_blank)) = input_blank"
    "bulkInput (app (fresh_run input_A_B)) = input_A_B"
    "started_keywords (trace (wld (fresh_run input_A_B))) = []"
    by (simp_all add: fresh_run_def world0_def)
  have h: "\<forall>l\<in>set (js_split (bulkInput (app (fresh_run input_blank))) [10]). \<forall>c\<in>set l. is_space c"
    unfolding bi by (rule h0)
  note t1 = keywords_are_trimmed_nonempty_lines [of env_B_fails "fresh_run input_A_B" input_A_B]
  note t2 = keywords_are_trimmed_nonempty_lines [of env_B_fails "fresh_run input_blank" input_blank]
  from t1 have "started_keywords (trace (wld (handleStartBulk env_B_fails (fresh_run input_A_B))))
     = started_keywords (trace (wld (fresh_run input_A_B))) @ bulkKeywords (bulkInput (app (fresh_run input_A_B)))"
    by (rule conjunct1)
  then have a: "started_keywords (trace (wld (handleStartBulk env_B_fails (fresh_run input_A_B))))
     = [asc ''A'', asc ''B'']" unfolding bi keywords_A_B by simp
  from t2 h have c: "handleStartBulk env_B_fails (fresh_run input_blank) = fresh_run input_blank"
    by blast
  from a b c show ?thesis by blast
qed

section \<open>Resolving the image placeholders\<close>

lemmas regex_defs = imageRegex_def lits_def lits_ci_def alt_def ci_match_def legacyName_def

lemma getSubstitution_plain: "36 \<notin> set t \<Longrightarrow> getSubstitution m a b t = t"
  by (induction m a b t rule: getSubstitution.induct) auto

lemma indexOf_skip:
  "pat \<noteq> [] \<Longrightarrow> hd pat \<notin> set d \<Longrightarrow>
     indexOf (d @ s) pat = map_option (\<lambda>i. length d + i) (indexOf s pat)"
proof (induction d)
  case Nil
  show ?case by (simp add: option.map_ident)
next
  case (Cons x d)
  obtain p ps where p: "pat = p # ps" using Cons.prems(1) by (cases pat) auto
  with Cons.prems have "p \<noteq> x" "hd pat \<notin> set d" by auto
  with Cons.IH [OF Cons.prems(1)] p show ?case
    by (simp add: option.map_comp comp_def)
qed

lemma js_replace_decomp:
  assumes "indexOf s pat = Some (length u)" and "s = u @ pat @ v"
  shows "js_replace s pat t = u @ getSubstitution pat u v t @ v"
  using assms by (simp add: js_replace_def)

lemma matchAll_raw_example:
  "matchAll imageRegex raw_example
     = [(0, asc ''[FEATURED_IMAGE_PROMPT: x]'', asc ''x''), (33, asc ''[IMAGE_PROMPT: y]'', asc ''y'')]"
  by (simp add: raw_example_def matchAll_def matchAllFrom.simps regex_defs char_class_defs asc_def)

lemma matchAll_raw_nested:
  "matchAll imageRegex raw_nested
     = [(0, asc ''[IMAGE_PROMPT: a [IMAGE_PROMPT: b]'', asc ''a [IMAGE_PROMPT: b''),
        (39, asc ''[IMAGE_PROMPT: b]'', asc ''b'')]"
  by (simp add: raw_nested_def matchAll_def matchAllFrom.simps regex_defs char_class_defs asc_def)

lemma generateBlogImage_first_reply:
  "\<not> rate_limit_signal (image_api env (image_calls w) (finalPrompt p)) \<Longrightarrow>
     generateBlogImage env p w =
       (Inr (reply_value env (image_api env (image_calls w) (finalPrompt p))),
        w\<lparr>image_calls := image_calls w + 1,
          trace := trace w @ [CallGenerateBlogImage p, GenerateContent (finalPrompt p)]\<rparr>)"
  by (simp add: generateBlogImage_eq Let_def upt_0_4)

text \<open>
  Claim C7, evaluated where it fails.  The raw article is
  \<open>[IMAGE_PROMPT: a [IMAGE_PROMPT: b] and [IMAGE_PROMPT: b]\<close>, with two placeholders: the
  first, with the prompt \<open>a [IMAGE_PROMPT: b\<close>, gets an image, and the second,
  \<open>[IMAGE_PROMPT: b]\<close> at index 39, gets none.  The text of the second placeholder is
  searched from the start of the article, and found inside the markdown image written for
  the first: that is where it is cut out.  The placeholder itself stays in the article.
\<close>

theorem failed_image_cut_in_wrong_place:
  "fst (resolveImages env_first_image_only raw_nested (fresh_run []))
     = Inr ([10, 10] @ asc ''![a ('' @ jpeg_uri @ asc '')'' @ [10] @ asc '' and [IMAGE_PROMPT: b]'')"
proof -
  have g1: "generateBlogImage env_first_image_only p w
      = (Inr (Some jpeg_uri), w\<lparr>image_calls := image_calls w + 1,
          trace := trace w @ [CallGenerateBlogImage p, GenerateContent (finalPrompt p)]\<rparr>)"
    if "image_calls w = 0" for p w
    using that
    by (subst generateBlogImage_first_reply)
       (simp_all add: env_first_image_only_def rate_limit_signal_def reply_value_def
          compressBase64_def)
  have g2: "generateBlogImage env_first_image_only p w
      = (Inr None, w\<lparr>image_calls := image_calls w + 1,
          trace := trace w @ [CallGenerateBlogImage p, GenerateContent (finalPrompt p)]\<rparr>)"
    if "image_calls w = 1" for p w
    using that
    by (subst generateBlogImage_first_reply)
       (simp_all add: env_first_image_only_def rate_limit_signal_def reply_value_def)
  show ?thesis
    apply (simp add: resolveImages_def matchAll_raw_nested fresh_run_def world0_def g1 g2)
    apply (simp add: js_replace_def js_includes_def markdownImage_def jpeg_uri_def raw_nested_def Let_def asc_def)
    done
qed


lemma resolveImages_raw_example:
  assumes g1: "generateBlogImage env (asc ''x'') (wld r) = (Inr (Some d1), w1)"
    and g2: "generateBlogImage env (asc ''y'') (emit (Sleep 6000) w1) = (Inr (Some d2), w2)"
    and d: "d1 \<noteq> []" "d2 \<noteq> []" "36 \<notin> set d1" "36 \<notin> set d2" "91 \<notin> set d1"
  shows "fst (resolveImages env raw_example r)
     = Inr ([10] @ asc ''![FEATURED_IMAGE]('' @ d1 @ asc '')'' @ [10, 10] @ asc ''Hello''
            @ [10, 10, 10] @ asc ''![y]('' @ d2 @ asc '')'' @ [10])"
proof -
  define tagF where "tagF = asc ''[FEATURED_IMAGE_PROMPT: x]''"
  define tagI where "tagI = asc ''[IMAGE_PROMPT: y]''"
  define u where "u = [10] @ asc ''![FEATURED_IMAGE]('' @ d1 @ asc '')'' @ [10, 10] @ asc ''Hello'' @ [10]"
  have f1: "js_includes tagF (asc ''FEATURED_IMAGE_PROMPT'')"
    by (simp add: tagF_def js_includes_def asc_def)
  have f2: "\<not> js_includes tagI (asc ''FEATURED_IMAGE_PROMPT'')"
    by (simp add: tagI_def js_includes_def asc_def)
  have r1: "js_replace raw_example tagF (markdownImage True (asc ''x'') d1) = u @ tagI"
  proof -
    have i: "indexOf raw_example tagF = Some (length ([] :: jsstring))"
      by (simp add: raw_example_def tagF_def asc_def)
    have e: "raw_example = [] @ tagF @ ([10] @ asc ''Hello'' @ [10] @ tagI)"
      by (simp add: raw_example_def tagF_def tagI_def)
    have p: "36 \<notin> set (markdownImage True (asc ''x'') d1)"
      using d by (simp add: markdownImage_def asc_def)
    show ?thesis
      unfolding js_replace_decomp [OF i e] getSubstitution_plain [OF p]
      by (simp add: markdownImage_def u_def)
  qed
  have r2: "js_replace (u @ tagI) tagI (markdownImage False (asc ''y'') d2)
      = u @ [10, 10] @ asc ''![y]('' @ d2 @ asc '')'' @ [10]"
  proof -
    have s: "indexOf (d1 @ t) tagI = map_option (\<lambda>i. length d1 + i) (indexOf t tagI)" for t
      by (rule indexOf_skip) (use d in \<open>simp_all add: tagI_def asc_def\<close>)
    note s' = s [unfolded tagI_def asc_def, simplified]
    have i: "indexOf (u @ tagI) tagI = Some (length u)"
      unfolding u_def by (simp add: tagI_def asc_def s')
    have e: "u @ tagI = u @ tagI @ []" by simp
    have p: "36 \<notin> set (markdownImage False (asc ''y'') d2)"
      using d by (simp add: markdownImage_def asc_def)
    show ?thesis
      unfolding js_replace_decomp [OF i e] getSubstitution_plain [OF p]
      by (simp add: markdownImage_def asc_def)
  qed
  have m: "matchAll imageRegex raw_example = [(0, tagF, asc ''x''), (33, tagI, asc ''y'')]"
    by (simp add: matchAll_raw_example tagF_def tagI_def)
  show ?thesis
    using d by (simp add: resolveImages_def m g1 g2 f1 f2 r1 r2 Let_def) (simp add: u_def)
qed

text \<open>
  Claim C2 is false as stated: with the data URI \<open>data:image/jpeg;base64,AA\<close> returned for
  both calls, the final content is not the text that the claim gives.
\<close>

theorem example_article_counterexample:
  "fst (resolveImages env_images raw_example (fresh_run []))
     \<noteq> Inr (asc ''![FEATURED_IMAGE]('' @ jpeg_uri @ asc '')'' @ [10] @ asc ''Hello''
             @ [10, 10, 10] @ asc ''![y]('' @ jpeg_uri @ asc '')'' @ [10])"
proof -
  have g: "generateBlogImage env_images p w
      = (Inr (Some jpeg_uri), w\<lparr>image_calls := image_calls w + 1,
          trace := trace w @ [CallGenerateBlogImage p, GenerateContent (finalPrompt p)]\<rparr>)" for p w
    by (subst generateBlogImage_first_reply)
       (simp_all add: env_images_def rate_limit_signal_def reply_value_def compressBase64_def)
  have "fst (resolveImages env_images raw_example (fresh_run []))
     = Inr ([10] @ asc ''![FEATURED_IMAGE]('' @ jpeg_uri @ asc '')'' @ [10, 10] @ asc ''Hello''
            @ [10, 10, 10] @ asc ''![y]('' @ jpeg_uri @ asc '')'' @ [10])"
    by (rule resolveImages_raw_example [OF g g]) (simp_all add: jpeg_uri_def asc_def)
  then show ?thesis by (simp add: asc_def)
qed

text \<open>
  Claim C2, amended.  For the raw article of the example, when the two calls of
  \<open>generateBlogImage\<close>, for the prompts \<open>x\<close> and \<open>y\<close> and with the 6 second sleep between
  them, return the data URIs \<open>d1\<close> and \<open>d2\<close> (non-empty, without dollar sign, the first
  without opening bracket, as base64 data URIs are), the final content is a line feed,
  \<open>![FEATURED_IMAGE](d1)\<close>, two line feeds, \<open>Hello\<close>, three line feeds, \<open>![y](d2)\<close> and a
  line feed.
\<close>

theorem example_article_content:
  assumes "generateBlogImage env (asc ''x'') (wld r) = (Inr (Some d1), w1)"
    and "generateBlogImage env (asc ''y'') (emit (Sleep 6000) w1) = (Inr (Some d2), w2)"
    and "d1 \<noteq> []" "d2 \<noteq> []" "36 \<notin> set d1" "36 \<notin> set d2" "91 \<notin> set d1"
  shows "fst (resolveImages env raw_example r)
     = Inr ([10] @ asc ''![FEATURED_IMAGE]('' @ d1 @ asc '')'' @ [10, 10] @ asc ''Hello''
            @ [10, 10, 10] @ asc ''![y]('' @ d2 @ asc '')'' @ [10])"
  using assms by (rule resolveImages_raw_example)

theorem example_article_content_witness:
  "fst (resolveImages env_images raw_example (fresh_run []))
     = Inr ([10] @ asc ''![FEATURED_IMAGE]('' @ jpeg_uri @ asc '')'' @ [10, 10] @ asc ''Hello''
            @ [10, 10, 10] @ asc ''![y]('' @ jpeg_uri @ asc '')'' @ [10])"
proof -
  have g: "generateBlogImage env_images p w
      = (Inr (Some jpeg_uri), w\<lparr>image_calls := image_calls w + 1,
          trace := trace w @ [CallGenerateBlogImage p, GenerateContent (finalPrompt p)]\<rparr>)" for p w
    by (subst generateBlogImage_first_reply)
       (simp_all add: env_images_def rate_limit_signal_def reply_value_def compressBase64_def)
  show ?thesis
    by (rule example_article_content [OF g g]) (simp_all add: jpeg_uri_def asc_def)
qed

section \<open>What the image pattern matches\<close>

lemma not_space_93 [simp]: "\<not> is_space 93"
  by (simp add: char_class_defs)

lemma asc_units: "asc ''['' = [91]" "asc '':'' = [58]" "asc '']'' = [93]"
  by (simp_all add: asc_def)

lemma lits_unit:
  "lits [x] k s = (case s of [] \<Rightarrow> None | c # cs \<Rightarrow> if c = x then k cs else None)"
  by (cases s) (auto simp: lits_def)

lemma imageRegex_unfold:
  "imageRegex =
     lits [91]
       (alt (lits_ci (asc ''FEATURED_IMAGE_PROMPT''))
            (alt (lits_ci (asc ''IMAGE_PROMPT'')) (lits_ci legacyName))
          (lits [58]
             (star_space (lazy_dot (\<lambda>prompt. lits [93] (\<lambda>rest. Some (prompt, rest))) []))))"
  by (simp add: imageRegex_def asc_units)

text \<open>The lazy capture up to the closing bracket: the text up to the first closing bracket,
  which must not contain a line terminator.\<close>

lemma lazy_dot_closing_iff:
  "lazy_dot (\<lambda>prompt. lits [93] (\<lambda>rest. Some (prompt, rest))) acc s = Some (q, rest)
   \<longleftrightarrow> (\<exists>p. s = p @ 93 # rest \<and> q = acc @ p \<and> 93 \<notin> set p \<and> (\<forall>c\<in>set p. \<not> is_line_terminator c))"
proof (induction s arbitrary: acc)
  case Nil
  show ?case by (simp add: lits_unit)
next
  case (Cons c cs)
  show ?case
  proof (cases "c = 93")
    case True
    then show ?thesis
      by (auto simp: lits_unit Cons_eq_append_conv)
  next
    case False
    show ?thesis
    proof (cases "is_line_terminator c")
      case True
      with False show ?thesis by (auto simp: lits_unit Cons_eq_append_conv)
    next
      case nlt: False
      have "(\<exists>p. c # cs = p @ 93 # rest \<and> q = acc @ p \<and> 93 \<notin> set p \<and> (\<forall>c\<in>set p. \<not> is_line_terminator c))
          \<longleftrightarrow> (\<exists>p'. cs = p' @ 93 # rest \<and> q = (acc @ [c]) @ p' \<and> 93 \<notin> set p' \<and> (\<forall>c\<in>set p'. \<not> is_line_terminator c))"
        using False nlt by (auto simp: Cons_eq_append_conv)
      with False nlt Cons.IH [of "acc @ [c]"] show ?thesis by (simp add: lits_unit)
    qed
  qed
qed

lemma dropWhile_space_closing:
  "93 \<notin> set body \<Longrightarrow> dropWhile is_space (body @ 93 # rest) = dropWhile is_space body @ 93 # rest"
  by (simp add: dropWhile_append)

text \<open>For this continuation, giving white space back never helps: \<open>\s*\<close> takes all of it.\<close>

lemma star_space_closing:
  "star_space (lazy_dot (\<lambda>prompt. lits [93] (\<lambda>rest. Some (prompt, rest))) []) s
     = lazy_dot (\<lambda>prompt. lits [93] (\<lambda>rest. Some (prompt, rest))) [] (dropWhile is_space s)"
  (is "star_space ?k s = ?k (dropWhile is_space s)")
proof (induction s)
  case Nil
  show ?case by simp
next
  case (Cons c cs)
  show ?case
  proof (cases "is_space c")
    case False
    then show ?thesis by simp
  next
    case True
    show ?thesis
    proof (cases "?k (dropWhile is_space cs)")
      case (Some r)
      with True Cons.IH show ?thesis by simp
    next
      case None
      have "?k (c # cs) = None"
      proof (rule ccontr)
        assume "?k (c # cs) \<noteq> None"
        then obtain q rest where "?k (c # cs) = Some (q, rest)" by auto
        then obtain p where p: "c # cs = p @ 93 # rest" "93 \<notin> set p"
            "\<forall>c\<in>set p. \<not> is_line_terminator c"
          unfolding lazy_dot_closing_iff by auto
        from p(1) True obtain p' where p': "p = c # p'" "cs = p' @ 93 # rest"
          by (cases p) auto
        have "dropWhile is_space cs = dropWhile is_space p' @ 93 # rest"
          using p' p(2) by (simp add: dropWhile_space_closing)
        moreover have "93 \<notin> set (dropWhile is_space p')"
          "\<forall>c\<in>set (dropWhile is_space p'). \<not> is_line_terminator c"
          using p p' by (auto dest: set_dropWhileD)
        ultimately have "?k (dropWhile is_space cs) = Some ([] @ dropWhile is_space p', rest)"
          unfolding lazy_dot_closing_iff by blast
        with None show False by simp
      qed
      with True None Cons.IH show ?thesis by simp
    qed
  qed
qed

lemma ci_prefix_iff:
  "ci_prefix p s \<longleftrightarrow> (\<exists>name rest. s = name @ rest \<and> list_all2 ci_match p name)"
proof (induction p s rule: ci_prefix.induct)
  case (1 s)
  show ?case by simp
next
  case (2 p ps)
  show ?case by (simp add: list_all2_Cons1)
next
  case (3 p ps c cs)
  then show ?case by (auto simp: list_all2_Cons1 Cons_eq_append_conv)
qed

lemma ci_prefix_drop:
  assumes "list_all2 ci_match p name"
  shows "ci_prefix p (name @ rest)" and "drop (length p) (name @ rest) = rest"
proof -
  show "ci_prefix p (name @ rest)" unfolding ci_prefix_iff using assms by blast
  have "length p = length name" using assms by (rule list_all2_lengthD)
  then show "drop (length p) (name @ rest) = rest" by simp
qed

lemma ci_prefix_decompose:
  assumes "ci_prefix p s"
  shows "\<exists>name. s = name @ drop (length p) s \<and> list_all2 ci_match p name"
proof -
  from assms obtain name rest where n: "s = name @ rest" "list_all2 ci_match p name"
    unfolding ci_prefix_iff by blast
  have "drop (length p) s = rest" unfolding n(1) using n(2) by (rule ci_prefix_drop(2))
  with n show ?thesis by auto
qed

lemma ci_prefix_first: "ci_prefix (p # ps) s \<Longrightarrow> s \<noteq> [] \<and> ci_match p (hd s)"
  by (cases s) auto

lemma name_heads:
  "asc ''FEATURED_IMAGE_PROMPT'' = 70 # asc ''EATURED_IMAGE_PROMPT''"
  "asc ''IMAGE_PROMPT'' = 73 # asc ''MAGE_PROMPT''"
  "legacyName = 72 # [195, 338, 78, 72, 32, 225, 186, 162, 78, 72]"
  by (simp_all add: asc_def legacyName_def)

lemma names_exclusive:
  "\<not> (ci_prefix (asc ''FEATURED_IMAGE_PROMPT'') s \<and> ci_prefix (asc ''IMAGE_PROMPT'') s)"
  "\<not> (ci_prefix (asc ''FEATURED_IMAGE_PROMPT'') s \<and> ci_prefix legacyName s)"
  "\<not> (ci_prefix (asc ''IMAGE_PROMPT'') s \<and> ci_prefix legacyName s)"
proof -
  have f: "ci_match 70 (hd s)" if "ci_prefix (asc ''FEATURED_IMAGE_PROMPT'') s"
    using that unfolding name_heads by (rule ci_prefix_first [THEN conjunct2])
  have i: "ci_match 73 (hd s)" if "ci_prefix (asc ''IMAGE_PROMPT'') s"
    using that unfolding name_heads by (rule ci_prefix_first [THEN conjunct2])
  have l: "ci_match 72 (hd s)" if "ci_prefix legacyName s"
    using that unfolding name_heads by (rule ci_prefix_first [THEN conjunct2])
  show "\<not> (ci_prefix (asc ''FEATURED_IMAGE_PROMPT'') s \<and> ci_prefix (asc ''IMAGE_PROMPT'') s)"
    using f i by (auto simp: ci_match_def)
  show "\<not> (ci_prefix (asc ''FEATURED_IMAGE_PROMPT'') s \<and> ci_prefix legacyName s)"
    using f l by (auto simp: ci_match_def)
  show "\<not> (ci_prefix (asc ''IMAGE_PROMPT'') s \<and> ci_prefix legacyName s)"
    using i l by (auto simp: ci_match_def)
qed

text \<open>What follows the name: a colon, white space that is dropped, the prompt without a
  line terminator, and the first closing bracket.\<close>

lemma after_name_iff:
  "lits [58] (star_space (lazy_dot (\<lambda>prompt. lits [93] (\<lambda>rest. Some (prompt, rest))) [])) t
     = Some (p, rest)
   \<longleftrightarrow> (\<exists>body. t = 58 # body @ 93 # rest \<and> 93 \<notin> set body \<and> p = dropWhile is_space body \<and>
                (\<forall>c\<in>set p. \<not> is_line_terminator c))"
  (is "?L \<longleftrightarrow> ?R")
proof
  assume l: ?L
  then obtain t' where t: "t = 58 # t'"
    by (cases t) (auto simp: lits_unit split: if_splits)
  from l have "lazy_dot (\<lambda>prompt. lits [93] (\<lambda>rest. Some (prompt, rest))) []
      (dropWhile is_space t') = Some (p, rest)"
    unfolding t star_space_closing [symmetric] by (simp add: lits_unit [of 58])
  then have d: "dropWhile is_space t' = p @ 93 # rest" "93 \<notin> set p"
      "\<forall>c\<in>set p. \<not> is_line_terminator c"
    unfolding lazy_dot_closing_iff by auto
  define body where "body = takeWhile is_space t' @ p"
  have 1: "t' = body @ 93 # rest"
    using d(1) takeWhile_dropWhile_id [of is_space t'] by (simp add: body_def)
  have 2: "93 \<notin> set body"
    using d(2) by (auto simp: body_def dest: set_takeWhileD)
  have "p = [] \<or> \<not> is_space (hd p)"
  proof (cases p)
    case Nil
    then show ?thesis by simp
  next
    case (Cons x xs)
    have "dropWhile is_space t' \<noteq> []" using d(1) by simp
    then have "\<not> is_space (hd (dropWhile is_space t'))" by (rule hd_dropWhile)
    with d(1) Cons show ?thesis by simp
  qed
  then have "dropWhile is_space p = p" by (cases p) auto
  then have 3: "p = dropWhile is_space body"
    by (simp add: body_def dropWhile_append) (auto dest: set_takeWhileD)
  from t 1 2 3 d(3) show ?R by blast
next
  assume ?R
  then obtain body where b: "t = 58 # body @ 93 # rest" "93 \<notin> set body"
      "p = dropWhile is_space body" "\<forall>c\<in>set p. \<not> is_line_terminator c"
    by blast
  have "dropWhile is_space (body @ 93 # rest) = p @ 93 # rest"
    using b by (simp add: dropWhile_space_closing)
  moreover have "93 \<notin> set p" using b by (auto dest: set_dropWhileD)
  ultimately have "lazy_dot (\<lambda>prompt. lits [93] (\<lambda>rest. Some (prompt, rest))) []
      (dropWhile is_space (body @ 93 # rest)) = Some ([] @ p, rest)"
    unfolding lazy_dot_closing_iff using b(4) by blast
  then have "star_space (lazy_dot (\<lambda>prompt. lits [93] (\<lambda>rest. Some (prompt, rest))) [])
      (body @ 93 # rest) = Some (p, rest)"
    unfolding star_space_closing by simp
  then show ?L unfolding b(1) by (simp add: lits_unit [of 58])
qed

text \<open>An alternation of three literal texts of which at most one begins the text.\<close>

lemma names_alt:
  assumes "\<not> (ci_prefix A s \<and> ci_prefix B s)" "\<not> (ci_prefix A s \<and> ci_prefix C s)"
    "\<not> (ci_prefix B s \<and> ci_prefix C s)"
  shows "alt (lits_ci A) (alt (lits_ci B) (lits_ci C)) k s
     = (if ci_prefix A s then k (drop (length A) s)
        else if ci_prefix B s then k (drop (length B) s)
        else if ci_prefix C s then k (drop (length C) s)
        else None)"
  using assms by (auto simp: alt_def lits_ci_def split: option.splits)

text \<open>The image pattern matches exactly the texts that begin with an opening bracket, a
  placeholder name in any letter case, a colon, a body without closing bracket, and a closing
  bracket, where the body without its leading white space, which is the prompt, has no line
  terminator.\<close>

lemma imageRegex_Some_iff:
  "imageRegex s = Some (p, rest)
   \<longleftrightarrow> (\<exists>name body. s = 91 # name @ 58 # body @ 93 # rest \<and>
          (featured_name name \<or> illustration_name name) \<and> 93 \<notin> set body \<and>
          p = dropWhile is_space body \<and> (\<forall>c\<in>set p. \<not> is_line_terminator c))"
  (is "?L \<longleftrightarrow> ?R")
proof -
  let ?k = "lits [58] (star_space (lazy_dot (\<lambda>prompt. lits [93] (\<lambda>rest. Some (prompt, rest))) []))"
  let ?A = "asc ''FEATURED_IMAGE_PROMPT''" and ?B = "asc ''IMAGE_PROMPT''"
  have step: "imageRegex (91 # s1)
     = (if ci_prefix ?A s1 then ?k (drop (length ?A) s1)
        else if ci_prefix ?B s1 then ?k (drop (length ?B) s1)
        else if ci_prefix legacyName s1 then ?k (drop (length legacyName) s1)
        else None)" for s1
    unfolding imageRegex_unfold lits_unit [of 91]
    using names_alt [OF names_exclusive, where s = s1 and k = ?k] by simp
  show ?thesis
  proof
    assume l: ?L
    then obtain s1 where s: "s = 91 # s1"
      by (cases s) (auto simp: imageRegex_unfold lits_unit [of 91] split: if_splits)
    from l obtain P where P: "ci_prefix P s1" "?k (drop (length P) s1) = Some (p, rest)"
        "P = ?A \<or> P = ?B \<or> P = legacyName"
      unfolding s step by (auto split: if_splits)
    from ci_prefix_decompose [OF P(1)] obtain name where
      n: "s1 = name @ drop (length P) s1" "list_all2 ci_match P name" by blast
    from P(2) obtain body where b: "drop (length P) s1 = 58 # body @ 93 # rest" "93 \<notin> set body"
        "p = dropWhile is_space body" "\<forall>c\<in>set p. \<not> is_line_terminator c"
      unfolding after_name_iff by blast
    have "featured_name name \<or> illustration_name name"
      using P(3) n(2) by (auto simp: featured_name_def illustration_name_def)
    moreover have "s = 91 # name @ 58 # body @ 93 # rest" using s n(1) b(1) by simp
    ultimately show ?R using b by blast
  next
    assume ?R
    then obtain name body where r: "s = 91 # name @ 58 # body @ 93 # rest"
        "featured_name name \<or> illustration_name name" "93 \<notin> set body"
        "p = dropWhile is_space body" "\<forall>c\<in>set p. \<not> is_line_terminator c"
      by blast
    let ?t = "58 # body @ 93 # rest"
    have k: "?k ?t = Some (p, rest)"
      unfolding after_name_iff using r by blast
    from r(2) obtain P where P: "list_all2 ci_match P name"
        "P = ?A \<or> P = ?B \<or> P = legacyName"
      by (auto simp: featured_name_def illustration_name_def)
    have c: "ci_prefix P (name @ ?t)" "drop (length P) (name @ ?t) = ?t"
      using ci_prefix_drop [OF P(1), of ?t] by simp_all
    have "imageRegex (91 # name @ ?t) = Some (p, rest)"
      unfolding step using P(2) c k names_exclusive [of "name @ ?t"] by auto
    then show ?L unfolding r(1) .
  qed
qed

lemma imageRegex_consuming: "consuming imageRegex"
  unfolding consuming_def
proof (intro allI impI)
  fix s c rest assume "imageRegex s = Some (c, rest)"
  then obtain name body where "s = 91 # name @ 58 # body @ 93 # rest"
    unfolding imageRegex_Some_iff by blast
  then have "s = (91 # name @ 58 # body @ [93]) @ rest" by simp
  then show "\<exists>t. t \<noteq> [] \<and> s = t @ rest" by blast
qed


section \<open>The matches of a global pattern\<close>

lemma consuming_Nil: "consuming m \<Longrightarrow> m [] = None"
proof (rule ccontr)
  assume c: "consuming m" and "m [] \<noteq> None"
  then obtain cap rest where "m [] = Some (cap, rest)" by auto
  with c obtain t where "t \<noteq> []" "[] = t @ rest" unfolding consuming_def by blast
  then show False by simp
qed

lemma matchAllFrom_Nil: "consuming m \<Longrightarrow> matchAllFrom m i [] = []"
  by (subst matchAllFrom.simps) (simp add: consuming_Nil)

lemma matchAllFrom_skip:
  "m (x # xs) = None \<Longrightarrow> matchAllFrom m i (x # xs) = matchAllFrom m (Suc i) xs"
  by (subst matchAllFrom.simps) simp

lemma matchAllFrom_match:
  assumes "m (t @ rest) = Some (c, rest)" and "t \<noteq> []"
  shows "matchAllFrom m i (t @ rest) = (i, t, c) # matchAllFrom m (i + length t) rest"
proof -
  have "max 1 (length t) = length t" using assms(2) by (cases t) auto
  then show ?thesis
    using assms by (subst matchAllFrom.simps) (simp add: Let_def)
qed

text \<open>Every match lies at its index in the text, where the matcher succeeds.\<close>

lemma matchAllFrom_located:
  assumes "consuming m" and "(idx, tag, c) \<in> set (matchAllFrom m i s)"
  shows "i \<le> idx \<and> tag \<noteq> [] \<and>
         (\<exists>rest. drop (idx - i) s = tag @ rest \<and> m (tag @ rest) = Some (c, rest))"
  using assms(2)
proof (induction "length s" arbitrary: s i rule: less_induct)
  case less
  show ?case
  proof (cases "m s")
    case None
    show ?thesis
    proof (cases s)
      case Nil
      with less.prems assms(1) show ?thesis by (simp add: matchAllFrom_Nil)
    next
      case (Cons x xs)
      with None less.prems have "(idx, tag, c) \<in> set (matchAllFrom m (Suc i) xs)"
        by (simp add: matchAllFrom_skip)
      from less.hyps [OF _ this] Cons
      obtain rest where "Suc i \<le> idx" "tag \<noteq> []" "drop (idx - Suc i) xs = tag @ rest"
          "m (tag @ rest) = Some (c, rest)" by auto
      moreover from this have "drop (idx - i) s = tag @ rest"
      proof -
        assume a: "Suc i \<le> idx" "drop (idx - Suc i) xs = tag @ rest"
        then have "idx - i = Suc (idx - Suc i)" by simp
        then show ?thesis using a Cons by simp
      qed
      ultimately show ?thesis by auto
    qed
  next
    case (Some a)
    obtain c0 rest0 where a: "a = (c0, rest0)" by (cases a)
    from assms(1) Some a obtain t where t: "t \<noteq> []" "s = t @ rest0"
      unfolding consuming_def by blast
    have e: "matchAllFrom m i s = (i, t, c0) # matchAllFrom m (i + length t) rest0"
      using matchAllFrom_match [of m t rest0 c0 i] Some a t by simp
    from less.prems e consider "(idx, tag, c) = (i, t, c0)"
      | "(idx, tag, c) \<in> set (matchAllFrom m (i + length t) rest0)" by auto
    then show ?thesis
    proof cases
      case 1
      with t Some a show ?thesis by auto
    next
      case 2
      have "length rest0 < length s" using t by simp
      from less.hyps [OF this 2]
      obtain rest where r: "i + length t \<le> idx" "tag \<noteq> []"
          "drop (idx - (i + length t)) rest0 = tag @ rest" "m (tag @ rest) = Some (c, rest)"
        by auto
      have "drop (idx - i) s = drop (idx - i - length t) rest0"
        using r(1) t(2) by simp
      also have "idx - i - length t = idx - (i + length t)" by simp
      finally have "drop (idx - i) s = tag @ rest" using r(3) by simp
      with r show ?thesis by auto
    qed
  qed
qed

text \<open>The matches are in the order of the text and do not overlap.\<close>

lemma matchAllFrom_ordered:
  assumes "consuming m"
  shows "sorted_wrt (\<lambda>a b. fst a + length (fst (snd a)) \<le> fst b) (matchAllFrom m i s)"
proof (induction "length s" arbitrary: s i rule: less_induct)
  case less
  show ?case
  proof (cases "m s")
    case None
    show ?thesis
    proof (cases s)
      case Nil
      with assms show ?thesis by (simp add: matchAllFrom_Nil)
    next
      case (Cons x xs)
      with None less.hyps [of xs "Suc i"] show ?thesis by (simp add: matchAllFrom_skip)
    qed
  next
    case (Some a)
    obtain c0 rest0 where a: "a = (c0, rest0)" by (cases a)
    from assms Some a obtain t where t: "t \<noteq> []" "s = t @ rest0"
      unfolding consuming_def by blast
    have e: "matchAllFrom m i s = (i, t, c0) # matchAllFrom m (i + length t) rest0"
      using matchAllFrom_match [of m t rest0 c0 i] Some a t by simp
    have "length rest0 < length s" using t by simp
    from less.hyps [OF this]
    have 1: "sorted_wrt (\<lambda>a b. fst a + length (fst (snd a)) \<le> fst b)
               (matchAllFrom m (i + length t) rest0)" .
    have 2: "i + length t \<le> fst b" if "b \<in> set (matchAllFrom m (i + length t) rest0)" for b
    proof -
      obtain idx tag c where b: "b = (idx, tag, c)" by (cases b)
      from matchAllFrom_located [OF assms that [unfolded b]] show ?thesis by (simp add: b)
    qed
    from 1 2 show ?thesis unfolding e by simp
  qed
qed

text \<open>No occurrence of the pattern is left out: a position where the matcher succeeds is
  the start of a match or lies inside one.\<close>

lemma matchAllFrom_complete:
  assumes "consuming m" and "j \<le> length s" and "m (drop j s) \<noteq> None"
  shows "\<exists>(idx, tag, c) \<in> set (matchAllFrom m i s). idx \<le> i + j \<and> i + j < idx + length tag"
  using assms(2,3)
proof (induction "length s" arbitrary: s i j rule: less_induct)
  case less
  show ?case
  proof (cases "m s")
    case None
    show ?thesis
    proof (cases s)
      case Nil
      with less.prems assms(1) show ?thesis by (simp add: consuming_Nil)
    next
      case (Cons x xs)
      with None less.prems obtain j' where j: "j = Suc j'" by (cases j) auto
      with less.prems Cons have "j' \<le> length xs" "m (drop j' xs) \<noteq> None" by simp_all
      from less.hyps [OF _ this, of "Suc i"] Cons
      have "\<exists>(idx, tag, c) \<in> set (matchAllFrom m (Suc i) xs). idx \<le> Suc i + j' \<and> Suc i + j' < idx + length tag"
        by simp
      then show ?thesis using None Cons j by (simp add: matchAllFrom_skip)
    qed
  next
    case (Some a)
    obtain c0 rest0 where a: "a = (c0, rest0)" by (cases a)
    from assms(1) Some a obtain t where t: "t \<noteq> []" "s = t @ rest0"
      unfolding consuming_def by blast
    have e: "matchAllFrom m i s = (i, t, c0) # matchAllFrom m (i + length t) rest0"
      using matchAllFrom_match [of m t rest0 c0 i] Some a t by simp
    show ?thesis
    proof (cases "j < length t")
      case True
      then show ?thesis unfolding e by simp
    next
      case False
      then have d: "drop j s = drop (j - length t) rest0" using t(2) by simp
      have "length rest0 < length s" using t by simp
      moreover have "j - length t \<le> length rest0" using less.prems(1) t(2) by simp
      moreover have "m (drop (j - length t) rest0) \<noteq> None" using less.prems(2) d by simp
      ultimately have "\<exists>(idx, tag, c) \<in> set (matchAllFrom m (i + length t) rest0).
          idx \<le> i + length t + (j - length t) \<and> i + length t + (j - length t) < idx + length tag"
        by (rule less.hyps)
      then show ?thesis unfolding e using False by auto
    qed
  qed
qed


section \<open>The image requests of an article\<close>

text \<open>
  Claim C6.  For every raw article: the loop is not cut short, and \<open>generateBlogImage\<close> is
  called once for each match of the image pattern, with the match's prompt, in the order of
  the matches.  The matches are in the order of the text and do not overlap; each lies at
  its index and is an opening bracket, a name of the featured image or of an illustration in
  any letter case, a colon, a body up to the first closing bracket, whose prompt is the body
  without leading white space and has no line terminator; and every position of the text
  where such a placeholder begins is the start of a match or lies inside one.  So the
  number of calls is the number of illustration placeholders plus the number of featured
  ones.
\<close>

theorem image_requests_follow_placeholders:
  "image_requests (trace (wld (snd (resolveImages env raw r))))
     = image_requests (trace (wld r))
       @ map (\<lambda>(idx, tag, prompt). prompt) (matchAll imageRegex raw) \<and>
   (\<exists>finalArticle. fst (resolveImages env raw r) = Inr finalArticle) \<and>
   sorted_wrt (\<lambda>a b. fst a + length (fst (snd a)) \<le> fst b) (matchAll imageRegex raw) \<and>
   (\<forall>(idx, tag, prompt) \<in> set (matchAll imageRegex raw).
      \<exists>name body rest.
        drop idx raw = tag @ rest \<and> tag = 91 # name @ 58 # body @ [93] \<and>
        (featured_name name \<or> illustration_name name) \<and> 93 \<notin> set body \<and>
        prompt = dropWhile is_space body \<and> (\<forall>c\<in>set prompt. \<not> is_line_terminator c)) \<and>
   (\<forall>j name body rest.
      j \<le> length raw \<and> drop j raw = 91 # name @ 58 # body @ 93 # rest \<and>
      (featured_name name \<or> illustration_name name) \<and> 93 \<notin> set body \<and>
      (\<forall>c\<in>set (dropWhile is_space body). \<not> is_line_terminator c) \<longrightarrow>
      (\<exists>(idx, tag, prompt) \<in> set (matchAll imageRegex raw). idx \<le> j \<and> j < idx + length tag)) \<and>
   length (map (\<lambda>(idx, tag, prompt). prompt) (matchAll imageRegex raw))
     = length (filter (\<lambda>(idx, tag, prompt). \<not> featured_placeholder tag) (matchAll imageRegex raw))
       + length (filter (\<lambda>(idx, tag, prompt). featured_placeholder tag) (matchAll imageRegex raw))"
proof -
  have 1: "image_requests (trace (wld (snd (resolveImages env raw r))))
     = image_requests (trace (wld r))
       @ map (\<lambda>(idx, tag, prompt). prompt) (matchAll imageRegex raw)"
    by (rule resolveImages_effects(1))
  have 2: "\<exists>finalArticle. fst (resolveImages env raw r) = Inr finalArticle"
    by (rule resolveImages_returns)
  have 3: "sorted_wrt (\<lambda>a b. fst a + length (fst (snd a)) \<le> fst b) (matchAll imageRegex raw)"
    unfolding matchAll_def by (rule matchAllFrom_ordered [OF imageRegex_consuming])
  have 4: "\<forall>(idx, tag, prompt) \<in> set (matchAll imageRegex raw).
      \<exists>name body rest.
        drop idx raw = tag @ rest \<and> tag = 91 # name @ 58 # body @ [93] \<and>
        (featured_name name \<or> illustration_name name) \<and> 93 \<notin> set body \<and>
        prompt = dropWhile is_space body \<and> (\<forall>c\<in>set prompt. \<not> is_line_terminator c)"
  proof (clarify)
    fix idx tag prompt assume "(idx, tag, prompt) \<in> set (matchAll imageRegex raw)"
    then have "(idx, tag, prompt) \<in> set (matchAllFrom imageRegex 0 raw)" by (simp add: matchAll_def)
    from matchAllFrom_located [OF imageRegex_consuming this]
    obtain rest where l: "drop idx raw = tag @ rest" "imageRegex (tag @ rest) = Some (prompt, rest)"
      by auto
    from l(2) obtain name body where n: "tag @ rest = 91 # name @ 58 # body @ 93 # rest"
        "featured_name name \<or> illustration_name name" "93 \<notin> set body"
        "prompt = dropWhile is_space body" "\<forall>c\<in>set prompt. \<not> is_line_terminator c"
      unfolding imageRegex_Some_iff by blast
    from n(1) have "tag @ rest = (91 # name @ 58 # body @ [93]) @ rest" by simp
    then have "tag = 91 # name @ 58 # body @ [93]" by (simp only: append_same_eq)
    with l(1) n show "\<exists>name body rest.
        drop idx raw = tag @ rest \<and> tag = 91 # name @ 58 # body @ [93] \<and>
        (featured_name name \<or> illustration_name name) \<and> 93 \<notin> set body \<and>
        prompt = dropWhile is_space body \<and> (\<forall>c\<in>set prompt. \<not> is_line_terminator c)"
      by blast
  qed
  have 5: "\<forall>j name body rest.
      j \<le> length raw \<and> drop j raw = 91 # name @ 58 # body @ 93 # rest \<and>
      (featured_name name \<or> illustration_name name) \<and> 93 \<notin> set body \<and>
      (\<forall>c\<in>set (dropWhile is_space body). \<not> is_line_terminator c) \<longrightarrow>
      (\<exists>(idx, tag, prompt) \<in> set (matchAll imageRegex raw). idx \<le> j \<and> j < idx + length tag)"
  proof (intro allI impI, elim conjE)
    fix j name body rest
    assume j: "j \<le> length raw" and d: "drop j raw = 91 # name @ 58 # body @ 93 # rest"
      and n: "featured_name name \<or> illustration_name name" and b: "93 \<notin> set body"
      and p: "\<forall>c\<in>set (dropWhile is_space body). \<not> is_line_terminator c"
    have "imageRegex (drop j raw) = Some (dropWhile is_space body, rest)"
      unfolding imageRegex_Some_iff using d n b p by blast
    then have "imageRegex (drop j raw) \<noteq> None" by simp
    from matchAllFrom_complete [OF imageRegex_consuming j this, of 0]
    show "\<exists>(idx, tag, prompt) \<in> set (matchAll imageRegex raw). idx \<le> j \<and> j < idx + length tag"
      by (simp add: matchAll_def)
  qed
  have 6: "length (map (\<lambda>(idx, tag, prompt). prompt) (matchAll imageRegex raw))
     = length (filter (\<lambda>(idx, tag, prompt). \<not> featured_placeholder tag) (matchAll imageRegex raw))
       + length (filter (\<lambda>(idx, tag, prompt). featured_placeholder tag) (matchAll imageRegex raw))"
    using sum_length_filter_compl [of "\<lambda>(idx, tag, prompt). featured_placeholder tag" "matchAll imageRegex raw"]
    by (simp add: case_prod_unfold)
  from 1 2 3 4 5 6 show ?thesis by blast
qed

lemma matchAll_raw_mixed_case:
  "matchAll imageRegex raw_mixed_case
     = [(0, asc ''[featured_image_prompt:x]'', asc ''x''),
        (30, asc ''[Image_Prompt:  y z]'', asc ''y z'')]"
  by (simp add: raw_mixed_case_def matchAll_def matchAllFrom.simps regex_defs char_class_defs asc_def)

theorem image_requests_follow_placeholders_witness:
  "image_requests (trace (wld (snd (resolveImages env_images raw_mixed_case (fresh_run [])))))
     = [asc ''x'', asc ''y z''] \<and>
   matchAll imageRegex raw_mixed_case \<noteq> []"
proof -
  note t = image_requests_follow_placeholders [of env_images raw_mixed_case "fresh_run []"]
  have 0: "image_requests (trace (wld (fresh_run []))) = []"
    by (simp add: fresh_run_def world0_def)
  from t have "image_requests (trace (wld (snd (resolveImages env_images raw_mixed_case (fresh_run [])))))
     = image_requests (trace (wld (fresh_run [])))
       @ map (\<lambda>(idx, tag, prompt). prompt) (matchAll imageRegex raw_mixed_case)"
    by (rule conjunct1)
  then have a: "image_requests (trace (wld (snd (resolveImages env_images raw_mixed_case (fresh_run [])))))
     = [asc ''x'', asc ''y z'']"
    unfolding 0 matchAll_raw_mixed_case by simp
  have h: "30 \<le> length raw_mixed_case \<and>
      drop 30 raw_mixed_case = 91 # asc ''Image_Prompt'' @ 58 # asc ''  y z'' @ 93 # [] \<and>
      (featured_name (asc ''Image_Prompt'') \<or> illustration_name (asc ''Image_Prompt'')) \<and>
      93 \<notin> set (asc ''  y z'') \<and>
      (\<forall>c\<in>set (dropWhile is_space (asc ''  y z'')). \<not> is_line_terminator c)"
    by (simp add: raw_mixed_case_def illustration_name_def asc_def ci_match_def char_class_defs)
  from t have "\<forall>j name body rest.
      j \<le> length raw_mixed_case \<and> drop j raw_mixed_case = 91 # name @ 58 # body @ 93 # rest \<and>
      (featured_name name \<or> illustration_name name) \<and> 93 \<notin> set body \<and>
      (\<forall>c\<in>set (dropWhile is_space body). \<not> is_line_terminator c) \<longrightarrow>
      (\<exists>(idx, tag, prompt) \<in> set (matchAll imageRegex raw_mixed_case). idx \<le> j \<and> j < idx + length tag)"
    by blast
  from this [rule_format, OF h] have b: "matchAll imageRegex raw_mixed_case \<noteq> []" by auto
  from a b show ?thesis by blast
qed

end
